theory Spec2Isabelle
  imports Complex_Main "HOL-Library.Monad_Syntax" "HOL-Library.Multiset"
begin

section \<open>Numbers\<close>

text \<open>
  The program computes with IEEE doubles (numpy \<open>float64\<close>).  They are idealised here:
  a finite double is a \<open>real\<close>, the two infinities the code writes as \<open>np.inf\<close> and
  \<open>-np.inf\<close> are the values \<open>PInf\<close> and \<open>MInf\<close>, rounding is not modelled, and an
  operation whose IEEE result is NaN (\<open>inf - inf\<close>, \<open>0 * inf\<close>, \<open>0 / 0\<close>) is an error
  of the function that performs it.  Coordinates of the points a caller supplies are finite.
\<close>

datatype xreal = MInf | Fin real | PInf

instantiation xreal :: linorder
begin

fun less_eq_xreal :: "xreal \<Rightarrow> xreal \<Rightarrow> bool" where
  "less_eq_xreal MInf _ = True"
| "less_eq_xreal (Fin a) MInf = False"
| "less_eq_xreal (Fin a) (Fin b) = (a \<le> b)"
| "less_eq_xreal (Fin a) PInf = True"
| "less_eq_xreal PInf MInf = False"
| "less_eq_xreal PInf (Fin b) = False"
| "less_eq_xreal PInf PInf = True"

definition less_xreal :: "xreal \<Rightarrow> xreal \<Rightarrow> bool" where
  "less_xreal x y = (x \<le> y \<and> \<not> y \<le> x)"

instance
proof
  fix x y z :: xreal
  show "(x < y) = (x \<le> y \<and> \<not> y \<le> x)" by (simp add: less_xreal_def)
  show "x \<le> x" by (cases x) simp_all
  show "x \<le> y \<Longrightarrow> y \<le> z \<Longrightarrow> x \<le> z"
    by (cases x; cases y; cases z) simp_all
  show "x \<le> y \<Longrightarrow> y \<le> x \<Longrightarrow> x = y"
    by (cases x; cases y) simp_all
  show "x \<le> y \<or> y \<le> x"
    by (cases x; cases y) auto
qed

end

text \<open>Arithmetic of doubles; \<open>None\<close> is the NaN result.\<close>

fun xadd :: "xreal \<Rightarrow> xreal \<Rightarrow> xreal option" where
  "xadd (Fin a) (Fin b) = Some (Fin (a + b))"
| "xadd PInf MInf = None"
| "xadd MInf PInf = None"
| "xadd PInf _ = Some PInf"
| "xadd _ PInf = Some PInf"
| "xadd MInf _ = Some MInf"
| "xadd _ MInf = Some MInf"

fun xneg :: "xreal \<Rightarrow> xreal" where
  "xneg MInf = PInf"
| "xneg (Fin a) = Fin (- a)"
| "xneg PInf = MInf"

definition xsub :: "xreal \<Rightarrow> xreal \<Rightarrow> xreal option" where
  "xsub a b = xadd a (xneg b)"

definition xsign :: "xreal \<Rightarrow> real" where
  "xsign a = (case a of MInf \<Rightarrow> - 1 | Fin r \<Rightarrow> sgn r | PInf \<Rightarrow> 1)"

fun xmul :: "xreal \<Rightarrow> xreal \<Rightarrow> xreal option" where
  "xmul (Fin a) (Fin b) = Some (Fin (a * b))"
| "xmul a b =
     (if xsign a * xsign b = 0 then None
      else if xsign a * xsign b < 0 then Some MInf else Some PInf)"

text \<open>
  \<open>np.isclose(a, b)\<close> with numpy's default tolerances \<open>rtol = 1e-5\<close> and
  \<open>atol = 1e-8\<close>, on finite arguments: \<open>|a - b| \<le> atol + rtol * |b|\<close>.
\<close>

definition atol :: real where
  "atol = 1 / 10 ^ 8"

definition rtol :: real where
  "rtol = 1 / 10 ^ 5"

definition isclose :: "real \<Rightarrow> real \<Rightarrow> bool" where
  "isclose a b = (\<bar>a - b\<bar> \<le> atol + rtol * \<bar>b\<bar>)"

section \<open>Points (point.py)\<close>

text \<open>
  A \<open>Point\<close> is the array of its coordinates.  The three comparisons walk
  \<open>zip(self._x, other._x)\<close>, so they stop at the end of the shorter array.
\<close>

type_synonym point = "real list"

type_synonym corner = "xreal list"

fun point_eq :: "'a list \<Rightarrow> 'a list \<Rightarrow> bool" where
  "point_eq (a # as) (b # bs) = (if a \<noteq> b then False else point_eq as bs)"
| "point_eq _ _ = True"

fun point_lt :: "('a::linorder) list \<Rightarrow> 'a list \<Rightarrow> bool" where
  "point_lt (a # as) (b # bs) = (if a \<ge> b then False else point_lt as bs)"
| "point_lt _ _ = True"

fun point_le :: "('a::linorder) list \<Rightarrow> 'a list \<Rightarrow> bool" where
  "point_le (a # as) (b # bs) = (if a > b then False else point_le as bs)"
| "point_le _ _ = True"

definition dimension :: "'a list \<Rightarrow> nat" where
  "dimension p = length p"

text \<open>
  \<open>Point.distance\<close> is \<open>np.linalg.norm(self._x - other._x)\<close>.  The subtraction of two
  arrays of different lengths broadcasts when one of them has length one and raises
  otherwise.
\<close>

definition array_sub :: "point \<Rightarrow> point \<Rightarrow> point option" where
  "array_sub p q =
     (if length p = length q then Some (map2 (-) p q)
      else if length q = 1 then Some (map (\<lambda>a. a - hd q) p)
      else if length p = 1 then Some (map (\<lambda>b. hd p - b) q)
      else None)"

definition norm2 :: "point \<Rightarrow> real" where
  "norm2 v = sqrt (\<Sum>a\<leftarrow>v. a * a)"

definition distance :: "point \<Rightarrow> point \<Rightarrow> real option" where
  "distance p q = map_option norm2 (array_sub p q)"

lemma point_lt_nth:
  "length p = length q \<Longrightarrow> point_lt p q = (\<forall>i<length p. p ! i < q ! i)"
proof (induction p q rule: list_induct2)
  case Nil
  show ?case by simp
next
  case (Cons a as b bs)
  show ?case
    using Cons.IH by (auto simp: less_Suc_eq_0_disj not_le)
qed

lemma point_le_nth:
  "length p = length q \<Longrightarrow> point_le p q = (\<forall>i<length p. p ! i \<le> q ! i)"
proof (induction p q rule: list_induct2)
  case Nil
  show ?case by simp
next
  case (Cons a as b bs)
  show ?case
    using Cons.IH by (auto simp: less_Suc_eq_0_disj not_less)
qed

lemma point_eq_nth:
  "length p = length q \<Longrightarrow> point_eq p q = (p = q)"
  by (induction p q rule: list_induct2) auto

section \<open>Axis-aligned bounding boxes (trees/aabb.py)\<close>

text \<open>
  The two corners of a box are \<open>Point\<close> objects whose coordinates may be infinite.  A
  function of this section returns \<open>None\<close> where the Python raises (a failed
  \<open>assert\<close>, an index out of range) or computes NaN.
\<close>

definition SKIN :: real where
  "SKIN = 1 / 10 ^ 12"

record aabb =
  pmin :: corner
  pmax :: corner
  surface_area :: xreal

text \<open>
  The inner loop of \<open>_update\<close>, \<open>for i, xi in enumerate(point._x)\<close>, for one corner and
  one of \<open>min\<close>, \<open>max\<close>: a point shorter than the box leaves the other coordinates as
  they are, a longer one indexes out of range.
\<close>

fun fold_point :: "(xreal \<Rightarrow> xreal \<Rightarrow> xreal) \<Rightarrow> corner \<Rightarrow> corner \<Rightarrow> corner option" where
  "fold_point f cs [] = Some cs"
| "fold_point f [] (x # xs) = None"
| "fold_point f (c # cs) (x # xs) = map_option ((#) (f c x)) (fold_point f cs xs)"

definition update_point :: "aabb \<Rightarrow> corner \<Rightarrow> aabb option" where
  "update_point b pt =
     do {
       mn \<leftarrow> fold_point min (pmin b) pt;
       mx \<leftarrow> fold_point max (pmax b) pt;
       Some (b\<lparr>pmin := mn, pmax := mx\<rparr>)
     }"

fun update_points :: "aabb \<Rightarrow> corner list \<Rightarrow> aabb option" where
  "update_points b [] = Some b"
| "update_points b (pt # pts) = do { b' \<leftarrow> update_point b pt; update_points b' pts }"

text \<open>\<open>dx + 2*SKIN\<close> for \<open>dx = hi - lo\<close>.\<close>

definition side :: "xreal \<Rightarrow> xreal \<Rightarrow> xreal option" where
  "side lo hi = do { dx \<leftarrow> xsub hi lo; xadd dx (Fin (2 * SKIN)) }"

text \<open>
  The loop over \<open>j\<close> for one \<open>i\<close>: \<open>a\<close> is multiplied by every side but the \<open>i\<close>-th.
  \<open>bounds\<close> are the pairs \<open>(lo, hi)\<close> from index \<open>j\<close> on.
\<close>

fun face_product :: "nat \<Rightarrow> (xreal \<times> xreal) list \<Rightarrow> nat \<Rightarrow> xreal \<Rightarrow> xreal option" where
  "face_product i [] j a = Some a"
| "face_product i ((lo, hi) # rest) j a =
     (if i = j then face_product i rest (Suc j) a
      else do { s \<leftarrow> side lo hi; a' \<leftarrow> xmul a s; face_product i rest (Suc j) a' })"

text \<open>
  The loop over \<open>i\<close>.  \<open>_update_surface_area\<close> asserts \<open>a >= 0\<close> for every face
  (\<open>checked\<close>); \<open>proposed_surface_area\<close> does not.
\<close>

fun area_loop :: "bool \<Rightarrow> (xreal \<times> xreal) list \<Rightarrow> nat list \<Rightarrow> xreal \<Rightarrow> xreal option" where
  "area_loop checked bounds [] area = Some area"
| "area_loop checked bounds (i # is) area =
     do {
       a \<leftarrow> face_product i bounds 0 (Fin 1);
       if checked \<and> \<not> Fin 0 \<le> a then None
       else do { area' \<leftarrow> xadd area a; area_loop checked bounds is area' }
     }"

definition update_surface_area :: "aabb \<Rightarrow> aabb option" where
  "update_surface_area b =
     do {
       area \<leftarrow> area_loop True (zip (pmin b) (pmax b)) [0..<length (pmin b)] (Fin 0);
       sa \<leftarrow> xmul (Fin 2) area;
       Some (b\<lparr>surface_area := sa\<rparr>)
     }"

definition aabb_update :: "aabb \<Rightarrow> corner list \<Rightarrow> aabb option" where
  "aabb_update b pts = do { b' \<leftarrow> update_points b pts; update_surface_area b' }"

definition aabb_set :: "aabb \<Rightarrow> corner list \<Rightarrow> aabb option" where
  "aabb_set b pts =
     aabb_update (b\<lparr>pmin := map (\<lambda>_. PInf) (pmin b), pmax := map (\<lambda>_. MInf) (pmax b)\<rparr>) pts"

text \<open>
  \<open>AABB(*points, ndim=None)\<close>: the second argument is \<open>ndim\<close>, \<open>None\<close> when it is
  not given.
\<close>

definition aabb_fresh :: "nat \<Rightarrow> aabb" where
  "aabb_fresh ndim =
     \<lparr>pmin = replicate ndim MInf, pmax = replicate ndim PInf, surface_area = Fin 0\<rparr>"

definition aabb_init_body :: "corner list \<Rightarrow> nat \<Rightarrow> aabb option" where
  "aabb_init_body points ndim =
     (if 0 < ndim
      then (if points \<noteq> [] then aabb_set (aabb_fresh ndim) points else Some (aabb_fresh ndim))
      else None)"

definition aabb_init :: "corner list \<Rightarrow> nat option \<Rightarrow> aabb option" where
  "aabb_init points ndim_arg =
     (case ndim_arg of
        None \<Rightarrow>
          (case points of
             [] \<Rightarrow> None
           | p # _ \<Rightarrow> aabb_init_body points (dimension p))
      | Some ndim \<Rightarrow>
          (case points of
             [] \<Rightarrow> aabb_init_body points ndim
           | p # _ \<Rightarrow> if ndim = dimension p then aabb_init_body points ndim else None))"

definition union :: "aabb \<Rightarrow> aabb \<Rightarrow> aabb option" where
  "union b box = aabb_update b [pmin box, pmax box]"

definition intersect :: "aabb \<Rightarrow> aabb \<Rightarrow> bool" where
  "intersect b box = (point_le (pmin b) (pmax box) \<and> point_le (pmin box) (pmax b))"

definition contains :: "aabb \<Rightarrow> corner \<Rightarrow> bool" where
  "contains b pt = (point_le (pmin b) pt \<and> point_le pt (pmax b))"

definition proposed_surface_area :: "aabb \<Rightarrow> corner \<Rightarrow> xreal option" where
  "proposed_surface_area b pt =
     (let n = length (pmin b) in
      if 2 \<le> n \<and> length pt < n then None
      else do {
        area \<leftarrow> area_loop False
                  (map (\<lambda>((lo, hi), x). (min lo x, max hi x)) (zip (zip (pmin b) (pmax b)) pt))
                  [0..<n] (Fin 0);
        xmul (Fin 2) area
      })"

definition aabb_lt :: "aabb \<Rightarrow> aabb \<Rightarrow> bool" where
  "aabb_lt b other =
     (if point_eq (pmin b) (pmin other) then point_lt (pmax b) (pmax other)
      else point_lt (pmin b) (pmin other))"

text \<open>
  The boxes the program builds: by the constructor, by \<open>union\<close> with another box, and by
  \<open>_set\<close> on the corners of other boxes of the same dimension, as \<open>set_box\<close> of the
  vertex tree does.
\<close>

inductive aabb_reach :: "aabb \<Rightarrow> bool" where
  reach_init: "aabb_init (map (map Fin) ps) nd = Some b \<Longrightarrow> aabb_reach b"
| reach_union: "aabb_reach b \<Longrightarrow> aabb_reach c \<Longrightarrow> union b c = Some b' \<Longrightarrow> aabb_reach b'"
| reach_set:
    "aabb_reach b \<Longrightarrow> cs \<noteq> [] \<Longrightarrow> \<forall>c\<in>set cs. aabb_reach c \<and> length (pmin c) = length (pmin b) \<Longrightarrow>
     aabb_set b (concat (map (\<lambda>c. [pmin c, pmax c]) cs)) = Some b' \<Longrightarrow> aabb_reach b'"

definition aabb_ordered :: "aabb \<Rightarrow> bool" where
  "aabb_ordered b =
     (length (pmin b) = length (pmax b) \<and> (\<forall>d<length (pmin b). pmin b ! d \<le> pmax b ! d))"

lemma fold_point_Some:
  "fold_point f cs pt = Some cs' \<Longrightarrow>
     length cs' = length cs \<and> length pt \<le> length cs \<and>
     (\<forall>i<length cs. cs' ! i = (if i < length pt then f (cs ! i) (pt ! i) else cs ! i))"
proof (induction f cs pt arbitrary: cs' rule: fold_point.induct)
  case (1 f cs)
  then show ?case by simp
next
  case (2 f x xs)
  then show ?case by simp
next
  case (3 f c cs x xs)
  from "3.prems" obtain r where r: "fold_point f cs xs = Some r" and cs': "cs' = f c x # r"
    by auto
  from "3.IH"[OF r] show ?case
    by (auto simp: cs' nth_Cons split: nat.splits)
qed

lemma update_point_ordered:
  assumes "update_point b pt = Some b'" and "length (pmin b) = length (pmax b)"
    and "\<forall>d<length (pmin b). d < length pt \<or> pmin b ! d \<le> pmax b ! d"
  shows "aabb_ordered b'"
proof -
  from assms(1) obtain mn mx where mn: "fold_point min (pmin b) pt = Some mn"
    and mx: "fold_point max (pmax b) pt = Some mx" and b': "b' = b\<lparr>pmin := mn, pmax := mx\<rparr>"
    by (auto simp: update_point_def split: bind_splits)
  note A = fold_point_Some[OF mn] and B = fold_point_Some[OF mx]
  have "mn ! d \<le> mx ! d" if "d < length (pmin b)" for d
  proof (cases "d < length pt")
    case True
    have "min (pmin b ! d) (pt ! d) \<le> pt ! d" by simp
    also have "pt ! d \<le> max (pmax b ! d) (pt ! d)" by simp
    finally show ?thesis using A B that True assms(2) by simp
  next
    case False
    then show ?thesis using A B that assms(2,3) by auto
  qed
  then show ?thesis using A B assms(2) by (simp add: aabb_ordered_def b')
qed

lemma update_point_preserves:
  "update_point b pt = Some b' \<Longrightarrow> aabb_ordered b \<Longrightarrow> aabb_ordered b'"
  by (rule update_point_ordered) (auto simp: aabb_ordered_def)

lemma update_points_preserves:
  "update_points b pts = Some b' \<Longrightarrow> aabb_ordered b \<Longrightarrow> aabb_ordered b'"
  by (induction pts arbitrary: b) (auto split: bind_splits dest: update_point_preserves)

lemma update_points_first_full:
  assumes "update_points b (pt # pts) = Some b'" and "length (pmin b) = length (pmax b)"
    and "length pt = length (pmin b)"
  shows "aabb_ordered b'"
proof -
  from assms(1) obtain b1 where b1: "update_point b pt = Some b1"
    and rest: "update_points b1 pts = Some b'"
    by (auto split: bind_splits)
  have "aabb_ordered b1"
    by (rule update_point_ordered[OF b1 assms(2)]) (simp add: assms(3))
  with rest show ?thesis by (rule update_points_preserves)
qed

lemma update_surface_area_corners:
  "update_surface_area b = Some b' \<Longrightarrow> pmin b' = pmin b \<and> pmax b' = pmax b"
  by (auto simp: update_surface_area_def split: bind_splits)

lemma aabb_update_preserves:
  "aabb_update b pts = Some b' \<Longrightarrow> aabb_ordered b \<Longrightarrow> aabb_ordered b'"
  by (auto simp: aabb_update_def aabb_ordered_def split: bind_splits
      dest!: update_surface_area_corners update_points_preserves[unfolded aabb_ordered_def])

lemma aabb_set_first_full:
  assumes "aabb_set b (pt # pts) = Some b'" and "length (pmin b) = length (pmax b)"
    and "length pt = length (pmin b)"
  shows "aabb_ordered b'"
proof -
  let ?r = "b\<lparr>pmin := map (\<lambda>_. PInf) (pmin b), pmax := map (\<lambda>_. MInf) (pmax b)\<rparr>"
  from assms(1) obtain b1 where b1: "update_points ?r (pt # pts) = Some b1"
    and sa: "update_surface_area b1 = Some b'"
    by (auto simp: aabb_set_def aabb_update_def split: bind_splits)
  have "aabb_ordered b1"
    by (rule update_points_first_full[OF b1]) (simp_all add: assms(2,3))
  with update_surface_area_corners[OF sa] show ?thesis
    by (simp add: aabb_ordered_def)
qed

lemma aabb_fresh_ordered: "aabb_ordered (aabb_fresh n)"
  by (simp add: aabb_ordered_def aabb_fresh_def)

lemma aabb_init_ordered:
  assumes "aabb_init pts nd = Some b"
  shows "aabb_ordered b"
proof (cases pts)
  case Nil
  with assms show ?thesis
    by (auto simp: aabb_init_def aabb_init_body_def aabb_fresh_ordered
        split: option.splits if_splits)
next
  case (Cons p ps)
  with assms have "aabb_set (aabb_fresh (length p)) (p # ps) = Some b"
    by (auto simp: aabb_init_def aabb_init_body_def dimension_def split: option.splits if_splits)
  then show ?thesis
    by (rule aabb_set_first_full) (simp_all add: aabb_fresh_def)
qed

lemma aabb_reach_ordered: "aabb_reach b \<Longrightarrow> aabb_ordered b"
proof (induction rule: aabb_reach.induct)
  case (reach_init ps nd b)
  then show ?case by (rule aabb_init_ordered)
next
  case (reach_union b c b')
  then show ?case by (auto simp: union_def dest: aabb_update_preserves)
next
  case (reach_set b cs b')
  from \<open>cs \<noteq> []\<close> obtain c cs' where cs: "cs = c # cs'" by (cases cs) auto
  from reach_set have len: "length (pmin c) = length (pmin b)" by (simp add: cs)
  from reach_set have ord: "aabb_ordered b" by simp
  from reach_set have
    "aabb_set b (pmin c # pmax c # concat (map (\<lambda>c. [pmin c, pmax c]) cs')) = Some b'"
    by (simp add: cs)
  then show ?case
    by (rule aabb_set_first_full) (use ord len in \<open>simp_all add: aabb_ordered_def\<close>)
qed

text \<open>
  C10.  For points of one dimension, \<open>p < q\<close> holds iff every coordinate of \<open>p\<close> is
  strictly below the coordinate of \<open>q\<close>, and \<open>p <= q\<close> iff every coordinate is at most
  that of \<open>q\<close>.  The order is partial: of the points \<open>(0, 1)\<close> and \<open>(1, 0)\<close> neither is
  below the other and they are not equal.  Containment, intersection and the comparison of
  boxes are written with these comparisons of the corners.
\<close>

theorem point_order_componentwise:
  fixes p q :: "('a::linorder) list"
  assumes "length p = length q"
  shows "(point_lt p q \<longleftrightarrow> (\<forall>i<length p. p ! i < q ! i))
       \<and> (point_le p q \<longleftrightarrow> (\<forall>i<length p. p ! i \<le> q ! i))
       \<and> (\<not> point_lt [0, 1] [1, 0::real] \<and> \<not> point_lt [1, 0] [0, 1::real]
            \<and> \<not> point_eq [0, 1] [1, 0::real])
       \<and> (contains b pt \<longleftrightarrow> point_le (pmin b) pt \<and> point_le pt (pmax b))
       \<and> (intersect b c \<longleftrightarrow> point_le (pmin b) (pmax c) \<and> point_le (pmin c) (pmax b))
       \<and> (aabb_lt b c \<longleftrightarrow>
            (if point_eq (pmin b) (pmin c) then point_lt (pmax b) (pmax c)
             else point_lt (pmin b) (pmin c)))"
  using point_lt_nth[OF assms] point_le_nth[OF assms]
  by (simp add: contains_def intersect_def aabb_lt_def)

theorem point_order_componentwise_witness:
  "length [0, 1::real] = length [1, 2::real]
   \<and> point_lt [0, 1] [1, 2::real] \<and> point_le [0, 1] [0, 2::real]
   \<and> \<not> point_lt [0, 1] [0, 2::real]"
  using point_order_componentwise[of "[0, 1::real]" "[1, 2]"]
    point_order_componentwise[of "[0, 1::real]" "[0, 2]"]
  by simp

text \<open>
  C9 as the claim states it fails: the box constructed with no points, \<open>AABB(ndim=2)\<close>,
  has \<open>pmin = -inf\<close> and \<open>pmax = +inf\<close>.
\<close>

theorem empty_box_counterexample:
  "aabb_init [] (Some 2)
     = Some \<lparr>pmin = [MInf, MInf], pmax = [PInf, PInf], surface_area = Fin 0\<rparr>
   \<and> [MInf, MInf] \<noteq> [PInf, PInf]"
  by (simp add: aabb_init_def aabb_init_body_def aabb_fresh_def numeral_2_eq_2)

text \<open>
  C9, amended.  A box constructed with no points has \<open>pmin = -inf\<close> and \<open>pmax = +inf\<close>
  in every dimension, and every box the program builds (by the constructor, by \<open>union\<close>, by
  \<open>_set\<close> on the corners of boxes of its dimension) has \<open>pmin[d] <= pmax[d]\<close> in every
  dimension \<open>d\<close>.
\<close>

theorem aabb_corners_ordered:
  "(aabb_init [] (Some n) = Some b \<longrightarrow>
      pmin b = replicate n MInf \<and> pmax b = replicate n PInf)
   \<and> (aabb_reach c \<longrightarrow>
      length (pmin c) = length (pmax c) \<and> (\<forall>d<length (pmin c). pmin c ! d \<le> pmax c ! d))"
  using aabb_reach_ordered[of c]
  by (auto simp: aabb_init_def aabb_init_body_def aabb_fresh_def aabb_ordered_def
      split: if_splits)

theorem aabb_corners_ordered_witness:
  "aabb_init [] (Some 2)
     = Some \<lparr>pmin = [MInf, MInf], pmax = [PInf, PInf], surface_area = Fin 0\<rparr>
   \<and> aabb_reach \<lparr>pmin = [Fin 0, Fin 0], pmax = [Fin 2, Fin 1],
                  surface_area = Fin (6 + 8 * SKIN)\<rparr>
   \<and> [Fin 0, Fin 0] ! 1 \<le> [Fin 2, Fin 1] ! 1"
proof -
  let ?e = "\<lparr>pmin = [MInf, MInf], pmax = [PInf, PInf], surface_area = Fin 0\<rparr>"
  let ?c = "\<lparr>pmin = [Fin 0, Fin 0], pmax = [Fin 2, Fin 1],
              surface_area = Fin (6 + 8 * SKIN)\<rparr>"
  have e: "aabb_init [] (Some 2) = Some ?e"
    by (simp add: aabb_init_def aabb_init_body_def aabb_fresh_def numeral_2_eq_2)
  have "aabb_init (map (map Fin) [[0, 1], [2, 0]]) None = Some ?c"
    by (simp add: aabb_init_def aabb_init_body_def aabb_fresh_def dimension_def aabb_set_def
        aabb_update_def update_point_def update_surface_area_def side_def xsub_def
        upt_rec[of 0] upt_rec[of 1] upt_rec[of 2] numeral_2_eq_2 SKIN_def)
  then have c: "aabb_reach ?c" by (rule reach_init)
  from aabb_corners_ordered[of 2 ?e ?c] e c show ?thesis by simp
qed

section \<open>Geometry (math_voronoi.py)\<close>

text \<open>A \<open>Point2D\<close> is the pair of its coordinates \<open>(x, y)\<close>.\<close>

type_synonym point2d = "real \<times> real"

text \<open>
  A failed \<open>assert\<close> is the error \<open>AssertionError\<close> with the asserted condition.
\<close>

datatype error = AssertionError string | FloatingPointError






fun det :: "point2d \<Rightarrow> point2d \<Rightarrow> point2d \<Rightarrow> real" where
  "det (px, py) (qx, qy) (rx, ry) = (px - rx) * (qy - ry) - (py - ry) * (qx - rx)"


definition is_left :: "point2d \<Rightarrow> point2d \<Rightarrow> point2d \<Rightarrow> bool" where
  "is_left p q r = (let d = det p q r in d > 0 \<and> \<not> isclose d 0)"

definition is_on_line :: "point2d \<Rightarrow> point2d \<Rightarrow> point2d \<Rightarrow> bool" where
  "is_on_line p q r = isclose (det p q r) 0"


















section \<open>The priority queue (heapq)\<close>

text \<open>
  Both queues of the program are Python lists handled by \<open>heapq.heappush\<close> and
  \<open>heapq.heappop\<close>.  The two functions are modelled as the standard library defines them,
  over the comparison \<open>lt\<close> that stands for \<open><\<close> of the items.
\<close>

function siftdown :: "('a \<Rightarrow> 'a \<Rightarrow> bool) \<Rightarrow> 'a list \<Rightarrow> 'a \<Rightarrow> nat \<Rightarrow> nat \<Rightarrow> 'a list" where
  "siftdown lt heap newitem startpos pos =
     (if pos > startpos then
        (let parentpos = (pos - 1) div 2;
             parent = heap ! parentpos
         in if lt newitem parent
            then siftdown lt (heap[pos := parent]) newitem startpos parentpos
            else heap[pos := newitem])
      else heap[pos := newitem])"
  by pat_completeness auto
termination
  by (relation "measure (\<lambda>(lt, heap, newitem, startpos, pos). pos)") auto

declare siftdown.simps [simp del]

function siftup_loop :: "('a \<Rightarrow> 'a \<Rightarrow> bool) \<Rightarrow> 'a list \<Rightarrow> nat \<Rightarrow> 'a list \<times> nat" where
  "siftup_loop lt heap pos =
     (let endpos = length heap;
          childpos = 2 * pos + 1
      in if childpos < endpos then
           (let rightpos = childpos + 1;
                childpos = (if rightpos < endpos \<and> \<not> lt (heap ! childpos) (heap ! rightpos)
                            then rightpos else childpos)
            in siftup_loop lt (heap[pos := heap ! childpos]) childpos)
         else (heap, pos))"
  by pat_completeness auto
termination
  by (relation "measure (\<lambda>(lt, heap, pos). length heap - pos)") (auto simp: Let_def)

declare siftup_loop.simps [simp del]

definition siftup :: "('a \<Rightarrow> 'a \<Rightarrow> bool) \<Rightarrow> 'a list \<Rightarrow> nat \<Rightarrow> 'a list" where
  "siftup lt heap pos =
     (let newitem = heap ! pos in
      case siftup_loop lt heap pos of (heap', pos') \<Rightarrow> siftdown lt heap' newitem pos pos')"

definition heappush :: "('a \<Rightarrow> 'a \<Rightarrow> bool) \<Rightarrow> 'a list \<Rightarrow> 'a \<Rightarrow> 'a list" where
  "heappush lt heap item = siftdown lt (heap @ [item]) item 0 (length heap)"

text \<open>\<open>heappop\<close> of an empty list raises \<open>IndexError\<close>: \<open>None\<close>.\<close>

definition heappop :: "('a \<Rightarrow> 'a \<Rightarrow> bool) \<Rightarrow> 'a list \<Rightarrow> ('a \<times> 'a list) option" where
  "heappop lt heap =
     (if heap = [] then None
      else
        let lastelt = last heap;
            heap' = butlast heap
        in if heap' \<noteq> [] then Some (hd heap', siftup lt (heap'[0 := lastelt]) 0)
           else Some (lastelt, []))"

lemma mset_move_hole:
  assumes "i < length xs" and "j < length xs" and "i \<noteq> j"
  shows "mset (xs[i := xs ! j, j := v]) = mset (xs[i := v])"
proof -
  let ?H = "xs[i := v]"
  have "mset (?H[j := ?H ! i, i := ?H ! j]) = mset ?H"
    by (rule mset_swap) (use assms in simp_all)
  moreover have "?H[j := ?H ! i, i := ?H ! j] = xs[i := xs ! j, j := v]"
    using assms by (simp add: list_update_swap[of i j])
  ultimately show ?thesis by simp
qed

lemma siftdown_length: "length (siftdown lt heap newitem startpos pos) = length heap"
  by (induction lt heap newitem startpos pos rule: siftdown.induct)
     (subst siftdown.simps, simp add: Let_def)

lemma siftdown_mset:
  "pos < length heap \<Longrightarrow>
   mset (siftdown lt heap newitem startpos pos) = mset (heap[pos := newitem])"
proof (induction lt heap newitem startpos pos rule: siftdown.induct)
  case (1 lt heap newitem startpos pos)
  show ?case
  proof (cases "pos > startpos \<and> lt newitem (heap ! ((pos - 1) div 2))")
    case True
    then have lt: "(pos - 1) div 2 < pos" by auto
    have "mset (siftdown lt (heap[pos := heap ! ((pos - 1) div 2)]) newitem startpos
                 ((pos - 1) div 2))
          = mset (heap[pos := heap ! ((pos - 1) div 2), (pos - 1) div 2 := newitem])"
      using "1.IH"[OF _ refl refl] True lt "1.prems" by simp
    also have "\<dots> = mset (heap[pos := newitem])"
      by (rule mset_move_hole) (use lt "1.prems" in simp_all)
    finally show ?thesis
      using True by (subst siftdown.simps) (simp add: Let_def)
  next
    case False
    then show ?thesis by (subst siftdown.simps) (auto simp: Let_def)
  qed
qed

lemma siftup_loop_hole:
  "pos < length heap \<Longrightarrow> siftup_loop lt heap pos = (heap', pos') \<Longrightarrow>
   length heap' = length heap \<and> pos' < length heap
   \<and> mset (heap'[pos' := v]) = mset (heap[pos := v])"
proof (induction lt heap pos arbitrary: heap' pos' rule: siftup_loop.induct)
  case (1 lt heap pos)
  show ?case
  proof (cases "2 * pos + 1 < length heap")
    case True
    define c where "c = (if 2 * pos + 1 + 1 < length heap
        \<and> \<not> lt (heap ! (2 * pos + 1)) (heap ! (2 * pos + 1 + 1))
        then 2 * pos + 1 + 1 else 2 * pos + 1)"
    have c: "c < length heap" "pos \<noteq> c" using True by (auto simp: c_def)
    have rec: "siftup_loop lt (heap[pos := heap ! c]) c = (heap', pos')"
      using "1.prems"(2) True by (subst (asm) siftup_loop.simps) (auto simp: Let_def c_def)
    have "length heap' = length (heap[pos := heap ! c]) \<and> pos' < length (heap[pos := heap ! c])
      \<and> mset (heap'[pos' := v]) = mset (heap[pos := heap ! c, c := v])"
      by (rule "1.IH"[OF refl refl True refl c_def _ rec]) (use c in simp)
    moreover have "mset (heap[pos := heap ! c, c := v]) = mset (heap[pos := v])"
      by (rule mset_move_hole) (use c "1.prems"(1) in simp_all)
    ultimately show ?thesis by simp
  next
    case False
    with "1.prems" show ?thesis
      by (subst (asm) siftup_loop.simps) (simp add: Let_def)
  qed
qed

lemma heappush_mset: "mset (heappush lt heap item) = add_mset item (mset heap)"
  by (simp add: heappush_def siftdown_mset)

lemma heappop_mset:
  assumes "heappop lt heap = Some (x, rest)"
  shows "mset heap = add_mset x (mset rest)"
proof (cases "butlast heap = []")
  case True
  with assms show ?thesis
    by (cases heap rule: rev_cases) (auto simp: heappop_def split: if_splits)
next
  case False
  from assms have ne: "heap \<noteq> []" by (auto simp: heappop_def split: if_splits)
  let ?h = "(butlast heap)[0 := last heap]"
  obtain h' p' where loop: "siftup_loop lt ?h 0 = (h', p')"
    by (cases "siftup_loop lt ?h 0") auto
  have len: "0 < length ?h"
    using False by (metis length_greater_0_conv length_list_update)
  from siftup_loop_hole[OF len loop, of "?h ! 0"]
  have hole: "length h' = length ?h" "p' < length ?h"
    "mset (h'[p' := ?h ! 0]) = mset ?h" by simp_all
  have x: "x = hd (butlast heap)" and rest: "rest = siftdown lt h' (?h ! 0) 0 p'"
    using assms False ne by (auto simp: heappop_def siftup_def loop Let_def)
  have "mset rest = mset ?h"
    unfolding rest using hole by (simp add: siftdown_mset)
  also have "add_mset x (mset ?h) = mset heap"
  proof -
    obtain a as where as: "butlast heap = a # as" using False by (cases "butlast heap") auto
    have "heap = butlast heap @ [last heap]" using ne by simp
    then have "mset heap = add_mset (last heap) (mset (a # as))"
      by (metis as mset.simps(2) mset_append add_mset_add_single union_mset_add_mset_right
          add.right_neutral mset.simps(1))
    then show ?thesis by (simp add: as x)
  qed
  finally show ?thesis by simp
qed

section \<open>Events (events.py) and the event loop (voronoi_diagram.py)\<close>

text \<open>
  An event is an object: it has an identity (\<open>ident\<close>) and the fields that never change
  after its construction.  The two fields of a circle event that are assigned later,
  \<open>_active\<close> and \<open>_node\<close>, are kept in the state, by the identity of the event; so is the
  field \<open>_circle\<close> of a leaf of the beachline, by the identity of the leaf (\<open>lid\<close>).
\<close>

datatype event =
    Event (ident: nat) (point: point2d)
  | CircleEvent (ident: nat) (point: point2d) (center: point2d) (radius: real)


definition event_lt :: "event \<Rightarrow> event \<Rightarrow> bool" where
  "event_lt e other =
     (if snd (point e) = snd (point other) then fst (point e) < fst (point other)
      else snd (point e) < snd (point other))"



record events_state =
  queue :: "event list"
  active :: "nat \<Rightarrow> bool"
  circle_node :: "nat \<Rightarrow> nat option"
  leaf_circle :: "nat \<Rightarrow> event option"
  fresh :: nat




text \<open>
  The driver.  \<open>algo\<close> is what the two handlers work on: the queue and the fields of events
  and leaves above, and in \<open>world\<close> the beachline, the edge list and the counters of
  vertices and edges.  The handlers \<open>_handle_circle_event\<close> and \<open>_handle_site_event\<close> are
  the parameters \<open>hc\<close> and \<open>hs\<close> of the loop; they do not touch \<open>prev_site\<close>, \<open>n_sites\<close> or
  what is printed.
\<close>

record 'w algo = events_state +
  world :: 'w

record 'w driver =
  algo :: "'w algo"
  prev_site :: "point2d option"
  n_sites :: nat
  printed :: "string list"

definition point2d_eq :: "point2d \<Rightarrow> point2d \<Rightarrow> bool" where
  "point2d_eq p q = point_eq [fst p, snd p] [fst q, snd q]"

text \<open>One turn of the \<open>while self._queue\<close> loop of \<open>run\<close>, entered with a queue that is not empty.\<close>

definition run_step ::
    "(event \<Rightarrow> 'w algo \<Rightarrow> error + 'w algo) \<Rightarrow> (event \<Rightarrow> 'w algo \<Rightarrow> error + 'w algo)
     \<Rightarrow> 'w driver \<Rightarrow> error + 'w driver" where
  "run_step hc hs st =
     (case heappop event_lt (queue (algo st)) of
        None \<Rightarrow> Inl (AssertionError ''queue'')
      | Some (ev, rest) \<Rightarrow>
          let a = (algo st)\<lparr>queue := rest\<rparr> in
          (case ev of
             CircleEvent i p c r \<Rightarrow>
               (case hc ev a of Inl e \<Rightarrow> Inl e | Inr a' \<Rightarrow> Inr (st\<lparr>algo := a'\<rparr>))
           | Event i p \<Rightarrow>
               if (case prev_site st of None \<Rightarrow> False | Some q \<Rightarrow> point2d_eq q p)
               then Inr (st\<lparr>algo := a, printed := printed st @ [''SKIPPING duplicate site'']\<rparr>)
               else
                 (case hs ev a of
                    Inl e \<Rightarrow> Inl e
                  | Inr a' \<Rightarrow>
                      Inr (st\<lparr>algo := a', prev_site := Some p, n_sites := n_sites st + 1\<rparr>))))"

partial_function (option) run_loop ::
    "(event \<Rightarrow> 'w algo \<Rightarrow> error + 'w algo) \<Rightarrow> (event \<Rightarrow> 'w algo \<Rightarrow> error + 'w algo)
     \<Rightarrow> 'w driver \<Rightarrow> (error + 'w driver) option" where
  "run_loop hc hs st =
     (if queue (algo st) = [] then Some (Inr st)
      else case run_step hc hs st of
             Inl e \<Rightarrow> Some (Inl e)
           | Inr st' \<Rightarrow> run_loop hc hs st')"

text \<open>The first loop of \<open>run\<close> pushes an event for every site.\<close>

fun push_sites :: "point2d list \<Rightarrow> 'a events_state_scheme \<Rightarrow> 'a events_state_scheme" where
  "push_sites [] st = st"
| "push_sites (s # sites) st =
     push_sites sites
       (st\<lparr>queue := heappush event_lt (queue st) (Event (fresh st) s), fresh := Suc (fresh st)\<rparr>)"

definition run ::
    "(event \<Rightarrow> 'w algo \<Rightarrow> error + 'w algo) \<Rightarrow> (event \<Rightarrow> 'w algo \<Rightarrow> error + 'w algo)
     \<Rightarrow> point2d list \<Rightarrow> 'w driver \<Rightarrow> (error + 'w driver) option" where
  "run hc hs sites st = run_loop hc hs (st\<lparr>algo := push_sites sites (algo st), prev_site := None\<rparr>)"








section \<open>The vertex tree (trees/tree_bvh.py)\<close>

text \<open>
  The tree stores \<open>Point\<close> objects: a \<open>vertex\<close> is the identity of the object and its
  coordinates.  A node is found from the root by its \<open>path\<close>; two nodes are the same object
  iff their paths are equal.  As for the boxes, \<open>None\<close> is a raised exception.
\<close>

type_synonym vertex = "nat \<times> point"

datatype dir = GoLeft | GoRight

type_synonym path = "dir list"

datatype bvh =
    LeafBVH vertex aabb
  | InternalBVH aabb nat nat bvh bvh

text \<open>The properties \<open>box\<close>, \<open>count\<close> and \<open>height\<close>; the height of an internal node asserts
  that it is positive.\<close>

fun node_box :: "bvh \<Rightarrow> aabb" where
  "node_box (LeafBVH v b) = b"
| "node_box (InternalBVH b c h l r) = b"

fun node_count :: "bvh \<Rightarrow> nat" where
  "node_count (LeafBVH v b) = 1"
| "node_count (InternalBVH b c h l r) = c"

fun node_height :: "bvh \<Rightarrow> nat option" where
  "node_height (LeafBVH v b) = Some 0"
| "node_height (InternalBVH b c h l r) = (if 0 < h then Some h else None)"

definition update_height :: "bvh \<Rightarrow> bvh \<Rightarrow> nat option" where
  "update_height l r = do { hl \<leftarrow> node_height l; hr \<leftarrow> node_height r; Some (1 + max hl hr) }"

definition imbalance :: "bvh \<Rightarrow> bvh \<Rightarrow> int option" where
  "imbalance l r = do { hl \<leftarrow> node_height l; hr \<leftarrow> node_height r; Some (int hl - int hr) }"

definition new_leaf :: "vertex \<Rightarrow> bvh option" where
  "new_leaf v = map_option (LeafBVH v) (aabb_init [map Fin (snd v)] None)"

text \<open>\<open>set_box\<close> of a node with the box \<open>b\<close> and the children \<open>l\<close> and \<open>r\<close>.\<close>

definition set_box :: "aabb \<Rightarrow> bvh \<Rightarrow> bvh \<Rightarrow> aabb option" where
  "set_box b l r =
     aabb_set b [pmin (node_box l), pmax (node_box l), pmin (node_box r), pmax (node_box r)]"

text \<open>
  \<open>InternalBVH(ndim)\<close> followed by the assignment of the children, \<open>set_box\<close>,
  \<open>update_count\<close> and \<open>update_height\<close>, as \<open>_insert\<close> does for the new internal node.
\<close>

definition new_internal :: "nat \<Rightarrow> bvh \<Rightarrow> bvh \<Rightarrow> bvh option" where
  "new_internal ndim l r =
     do {
       b \<leftarrow> aabb_init [] (Some ndim);
       b' \<leftarrow> set_box b l r;
       h \<leftarrow> update_height l r;
       Some (InternalBVH b' (1 + node_count l + node_count r) h l r)
     }"

text \<open>The comparisons \<open>__lt__\<close> of the nodes, and \<open><\<close> of the tuples \<open>(cost, node)\<close> of the
  queue of \<open>_insert\<close>.\<close>

fun node_lt :: "bvh \<Rightarrow> bvh \<Rightarrow> bool" where
  "node_lt (InternalBVH b c h l r) (LeafBVH v' b') = point_lt (pmin b) (map Fin (snd v'))"
| "node_lt (InternalBVH b c h l r) (InternalBVH b' c' h' l' r') = aabb_lt b b'"
| "node_lt (LeafBVH v b) (InternalBVH b' c' h' l' r') = point_lt (map Fin (snd v)) (pmin b')"
| "node_lt (LeafBVH v b) (LeafBVH v' b') = point_lt (snd v) (snd v')"

type_synonym item = "xreal \<times> path \<times> bvh"

fun item_lt :: "item \<Rightarrow> item \<Rightarrow> bool" where
  "item_lt (c1, p1, n1) (c2, p2, n2) =
     (if c1 \<noteq> c2 then c1 < c2 else if p1 = p2 then False else node_lt n1 n2)"

text \<open>
  What one turn of the search loop of \<open>_insert\<close> computed.  The list of the visits is not
  in the source; the loop below returns it next to its result, for the statements about
  the search.
\<close>

record visit =
  v_path :: path
  v_node :: bvh
  v_inherited :: xreal
  v_node_cost :: xreal
  v_low_cost :: xreal
  v_best_cost :: xreal

fun push_children :: "item list \<Rightarrow> xreal \<Rightarrow> path \<Rightarrow> bvh \<Rightarrow> item list" where
  "push_children heap low_cost p (LeafBVH v b) = heap"
| "push_children heap low_cost p (InternalBVH b c h l r) =
     heappush item_lt (heappush item_lt heap (low_cost, p @ [GoLeft], l))
       (low_cost, p @ [GoRight], r)"

text \<open>The number of nodes under the items of the queue, which the loop decreases.\<close>

fun tree_size :: "bvh \<Rightarrow> nat" where
  "tree_size (LeafBVH v b) = 1"
| "tree_size (InternalBVH b c h l r) = 1 + tree_size l + tree_size r"

definition heap_weight :: "item list \<Rightarrow> nat" where
  "heap_weight heap = sum_mset (image_mset (\<lambda>(c, p, n). tree_size n) (mset heap))"

lemma heap_weight_pop:
  "heappop item_lt heap = Some ((c, p, n), rest) \<Longrightarrow>
   heap_weight heap = tree_size n + heap_weight rest"
  by (simp add: heap_weight_def heappop_mset)

lemma heap_weight_push:
  "heap_weight (heappush item_lt heap (c, p, n)) = tree_size n + heap_weight heap"
  by (simp add: heap_weight_def heappush_mset)

lemma heap_weight_children:
  "heap_weight (push_children rest low p n) < tree_size n + heap_weight rest"
  by (cases n) (simp_all add: heap_weight_push)

lemma pop_push_children_less:
  "heappop item_lt heap = Some ((c, p, n), rest) \<Longrightarrow>
   heap_weight (push_children rest low p n) < heap_weight heap"
  using heap_weight_children[of rest low p n] by (simp add: heap_weight_pop)

lemma pop_less:
  "heappop item_lt heap = Some ((c, p, n), rest) \<Longrightarrow> heap_weight rest < heap_weight heap"
  by (cases n) (simp_all add: heap_weight_pop)

function find_loop ::
    "point \<Rightarrow> item list \<Rightarrow> xreal \<Rightarrow> (path \<times> bvh) option
     \<Rightarrow> (xreal \<times> (path \<times> bvh) option \<times> visit list) option" where
  "find_loop pt heap best_cost best_node =
     (case heappop item_lt heap of
        None \<Rightarrow> Some (best_cost, best_node, [])
      | Some ((inherited_cost, p, nd), rest) \<Rightarrow>
          (case proposed_surface_area (node_box nd) (map Fin pt) of
             None \<Rightarrow> None
           | Some point_sa \<Rightarrow>
          (case xsub point_sa (surface_area (node_box nd)) of
             None \<Rightarrow> None
           | Some delta_sa \<Rightarrow>
          (case xadd (surface_area (node_box nd)) inherited_cost of
             None \<Rightarrow> None
           | Some node_cost \<Rightarrow>
          (case xadd inherited_cost delta_sa of
             None \<Rightarrow> None
           | Some low_cost \<Rightarrow>
               let best_cost' = (if node_cost \<le> best_cost then node_cost else best_cost);
                   best_node' = (if node_cost \<le> best_cost then Some (p, nd) else best_node);
                   heap' = (if low_cost < best_cost' then push_children rest low_cost p nd
                             else rest)
               in map_option
                    (\<lambda>(bc, bn, vs).
                       (bc, bn,
                        \<lparr>v_path = p, v_node = nd, v_inherited = inherited_cost,
                         v_node_cost = node_cost, v_low_cost = low_cost,
                         v_best_cost = best_cost'\<rparr> # vs))
                    (find_loop pt heap' best_cost' best_node'))))))"
  by pat_completeness auto
termination find_loop
  by (relation "measure (\<lambda>(pt, heap, bc, bn). heap_weight heap)")
     (auto intro: pop_push_children_less pop_less)

declare find_loop.simps [simp del]

text \<open>
  The search of \<open>_insert\<close>: the queue starts with the root at the inherited cost \<open>0\<close>, and
  the loop ends with \<open>best_node\<close> set (the source asserts it).
\<close>

definition find_sibling :: "point \<Rightarrow> bvh \<Rightarrow> (path \<times> bvh) option" where
  "find_sibling pt rt =
     (case find_loop pt [(Fin 0, [], rt)] PInf None of
        None \<Rightarrow> None
      | Some (bc, bn, vs) \<Rightarrow> bn)"

text \<open>
  The second half of \<open>_insert\<close>: the sibling at path \<open>p\<close> is replaced by a new internal
  node with the sibling on the left and the new leaf on the right.
\<close>

fun insert_at :: "path \<Rightarrow> vertex \<Rightarrow> bvh \<Rightarrow> bvh option" where
  "insert_at [] v sibling =
     do {
       newnode \<leftarrow> new_leaf v;
       new_internal (dimension (snd v)) sibling newnode
     }"
| "insert_at (GoLeft # p) v (InternalBVH b c h l r) =
     do { l' \<leftarrow> insert_at p v l; Some (InternalBVH b c h l' r) }"
| "insert_at (GoRight # p) v (InternalBVH b c h l r) =
     do { r' \<leftarrow> insert_at p v r; Some (InternalBVH b c h l r') }"
| "insert_at (d # p) v (LeafBVH v' b') = None"

text \<open>
  \<open>_update_internals\<close>: from the parent of the new internal node (at path \<open>p\<close>) up to the
  root, every node unites its box with the box of the child below it on the path and
  updates count and height.
\<close>

fun update_internals :: "path \<Rightarrow> bvh \<Rightarrow> bvh option" where
  "update_internals [] t = Some t"
| "update_internals (GoLeft # p) (InternalBVH b c h l r) =
     do {
       l' \<leftarrow> update_internals p l;
       b' \<leftarrow> union b (node_box l');
       h' \<leftarrow> update_height l' r;
       Some (InternalBVH b' (1 + node_count l' + node_count r) h' l' r)
     }"
| "update_internals (GoRight # p) (InternalBVH b c h l r) =
     do {
       r' \<leftarrow> update_internals p r;
       b' \<leftarrow> union b (node_box r');
       h' \<leftarrow> update_height l r';
       Some (InternalBVH b' (1 + node_count l + node_count r') h' l r')
     }"
| "update_internals (d # p) (LeafBVH v' b') = None"

text \<open>\<open>TreeBVH.insert\<close>; the tree is its root, \<open>None\<close> when it is empty.  The result is the
  tree and the path of the parent of the new leaf.\<close>

definition tree_insert :: "vertex \<Rightarrow> bvh option \<Rightarrow> (bvh \<times> path option) option" where
  "tree_insert x rt =
     (case rt of
        None \<Rightarrow> map_option (\<lambda>lf. (lf, None)) (new_leaf x)
      | Some t \<Rightarrow>
          do {
            (p, sibling) \<leftarrow> find_sibling (snd x) t;
            t' \<leftarrow> insert_at p x t;
            t'' \<leftarrow> update_internals p t';
            Some (t'', Some p)
          })"

text \<open>
  \<open>query\<close>: the stack is a list with its top at the head.  The result \<open>Some None\<close> is the
  Python \<open>None\<close>, \<open>Some (Some v)\<close> the leaf with the vertex \<open>v\<close>.
\<close>

definition query_box :: "point \<Rightarrow> real \<Rightarrow> aabb option" where
  "query_box pt rad =
     (if rad = 0 then aabb_init [map Fin pt] None
      else aabb_init [map Fin (map (\<lambda>a. a - rad) pt), map Fin (map (\<lambda>a. a + rad) pt)] None)"

function query_loop :: "aabb \<Rightarrow> point \<Rightarrow> real \<Rightarrow> bvh list \<Rightarrow> vertex option option" where
  "query_loop qb pt rad [] = Some None"
| "query_loop qb pt rad (LeafBVH v b # stack) =
     (case distance pt (snd v) of
        None \<Rightarrow> None
      | Some d \<Rightarrow> if d \<le> rad then Some (Some v) else query_loop qb pt rad stack)"
| "query_loop qb pt rad (InternalBVH b c h l r # stack) =
     (if intersect qb b then query_loop qb pt rad (r # l # stack)
      else query_loop qb pt rad stack)"
  by pat_completeness auto
termination
  by (relation "measure (\<lambda>(qb, pt, rad, stack). sum_list (map tree_size stack))") auto

definition query :: "bvh option \<Rightarrow> point \<Rightarrow> real \<Rightarrow> vertex option option" where
  "query rt pt rad =
     (case rt of
        None \<Rightarrow> Some None
      | Some t \<Rightarrow>
          (case query_box pt rad of
             None \<Rightarrow> None
           | Some qb \<Rightarrow> query_loop qb pt rad [t]))"

text \<open>\<open>contains\<close> looks for the very object: \<open>node.value is point\<close>.\<close>

function contains_loop :: "vertex \<Rightarrow> bvh list \<Rightarrow> bool" where
  "contains_loop x [] = False"
| "contains_loop x (LeafBVH v b # stack) =
     (if fst v = fst x then True else contains_loop x stack)"
| "contains_loop x (InternalBVH b c h l r # stack) =
     (if contains b (map Fin (snd x)) then contains_loop x (r # l # stack)
      else contains_loop x stack)"
  by pat_completeness auto
termination
  by (relation "measure (\<lambda>(x, stack). sum_list (map tree_size stack))") auto

definition tree_contains :: "bvh option \<Rightarrow> vertex \<Rightarrow> bool" where
  "tree_contains rt x = (case rt of None \<Rightarrow> False | Some t \<Rightarrow> contains_loop x [t])"

subsection \<open>The balanced variant\<close>

text \<open>
  \<open>calculate_cost\<close> of a node with the stored count \<open>c\<close> and the children \<open>l\<close> and \<open>r\<close>;
  the division by a count of zero raises.
\<close>

definition calculate_cost :: "nat \<Rightarrow> bvh \<Rightarrow> bvh \<Rightarrow> xreal option" where
  "calculate_cost c l r =
     (if c = 0 then None
      else do {
        a \<leftarrow> xmul (Fin (real (node_count l) / real c)) (surface_area (node_box l));
        b \<leftarrow> xmul (Fin (real (node_count r) / real c)) (surface_area (node_box r));
        cost \<leftarrow> xadd a b;
        dc \<leftarrow> imbalance l r;
        xmul cost (Fin (real_of_int (max 1 \<bar>dc\<bar>)))
      })"

text \<open>\<open>set_box\<close> and \<open>update\<close> of an internal node with the box \<open>b\<close> after its children
  have become \<open>x\<close> and \<open>y\<close>.\<close>

definition refresh :: "aabb \<Rightarrow> bvh \<Rightarrow> bvh \<Rightarrow> bvh option" where
  "refresh b x y =
     do {
       b' \<leftarrow> set_box b x y;
       h \<leftarrow> update_height x y;
       Some (InternalBVH b' (1 + node_count x + node_count y) h x y)
     }"

text \<open>
  The two trial swaps with the children of the left child, then its restoring: the costs
  \<open>cost_ll_r\<close> and \<open>cost_lr_r\<close> and the left child as it is left behind.
\<close>

fun try_left :: "nat \<Rightarrow> bvh \<Rightarrow> bvh \<Rightarrow> (xreal \<times> xreal \<times> bvh) option" where
  "try_left c (InternalBVH lb lc lh left_left left_right) r =
     do {
       t1 \<leftarrow> refresh lb r left_right;
       cost_ll_r \<leftarrow> calculate_cost c t1 left_left;
       t2 \<leftarrow> refresh (node_box t1) left_left r;
       cost_lr_r \<leftarrow> calculate_cost c t2 left_right;
       t3 \<leftarrow> refresh (node_box t2) left_left left_right;
       Some (cost_ll_r, cost_lr_r, t3)
     }"
| "try_left c (LeafBVH v b) r = Some (PInf, PInf, LeafBVH v b)"

fun try_right :: "nat \<Rightarrow> bvh \<Rightarrow> bvh \<Rightarrow> (xreal \<times> xreal \<times> bvh) option" where
  "try_right c l (InternalBVH rb rc rh right_left right_right) =
     do {
       t1 \<leftarrow> refresh rb l right_right;
       cost_rl_l \<leftarrow> calculate_cost c right_left t1;
       t2 \<leftarrow> refresh (node_box t1) right_left l;
       cost_rr_l \<leftarrow> calculate_cost c right_right t2;
       t3 \<leftarrow> refresh (node_box t2) right_left right_right;
       Some (cost_rl_l, cost_rr_l, t3)
     }"
| "try_right c l (LeafBVH v b) = Some (PInf, PInf, LeafBVH v b)"

text \<open>The four swaps that are applied; each asserts that the child it opens is internal.\<close>

fun swap_ll_r :: "bvh \<Rightarrow> bvh \<Rightarrow> (bvh \<times> bvh) option" where
  "swap_ll_r (InternalBVH lb lc lh left_left left_right) r =
     do { l' \<leftarrow> refresh lb r left_right; Some (l', left_left) }"
| "swap_ll_r (LeafBVH v b) r = None"

fun swap_lr_r :: "bvh \<Rightarrow> bvh \<Rightarrow> (bvh \<times> bvh) option" where
  "swap_lr_r (InternalBVH lb lc lh left_left left_right) r =
     do { l' \<leftarrow> refresh lb left_left r; Some (l', left_right) }"
| "swap_lr_r (LeafBVH v b) r = None"

fun swap_rl_l :: "bvh \<Rightarrow> bvh \<Rightarrow> (bvh \<times> bvh) option" where
  "swap_rl_l l (InternalBVH rb rc rh right_left right_right) =
     do { r' \<leftarrow> refresh rb l right_right; Some (right_left, r') }"
| "swap_rl_l l (LeafBVH v b) = None"

fun swap_rr_l :: "bvh \<Rightarrow> bvh \<Rightarrow> (bvh \<times> bvh) option" where
  "swap_rr_l l (InternalBVH rb rc rh right_left right_right) =
     do { r' \<leftarrow> refresh rb right_left l; Some (right_right, r') }"
| "swap_rr_l l (LeafBVH v b) = None"

text \<open>One turn of the loop of \<open>_rebalance\<close>, at an internal node.\<close>

fun rebalance_node :: "bvh \<Rightarrow> bvh option" where
  "rebalance_node (InternalBVH b c h l r) =
     do {
       dc \<leftarrow> imbalance l r;
       cost \<leftarrow> (if \<bar>dc\<bar> \<ge> 2 then Some PInf else calculate_cost c l r);
       (cost_ll_r, cost_lr_r, l1) \<leftarrow> try_left c l r;
       (cost_rl_l, cost_rr_l, r1) \<leftarrow> try_right c l1 r;
       let min_cost = min cost (min cost_ll_r (min cost_lr_r (min cost_rl_l cost_rr_l)));
       (l', r') \<leftarrow>
         (if min_cost = cost then Some (l1, r1)
          else if min_cost = cost_ll_r then swap_ll_r l1 r1
          else if min_cost = cost_lr_r then swap_lr_r l1 r1
          else if min_cost = cost_rl_l then swap_rl_l l1 r1
          else if min_cost = cost_rr_l then swap_rr_l l1 r1
          else Some (l1, r1));
       h' \<leftarrow> update_height l' r';
       Some (InternalBVH b c h' l' r')
     }"
| "rebalance_node (LeafBVH v b) = None"

text \<open>\<open>_rebalance\<close>: from the parent of the new leaf, at path \<open>p\<close>, up to the root.\<close>

fun rebalance_path :: "path \<Rightarrow> bvh \<Rightarrow> bvh option" where
  "rebalance_path [] t = rebalance_node t"
| "rebalance_path (GoLeft # p) (InternalBVH b c h l r) =
     do { l' \<leftarrow> rebalance_path p l; rebalance_node (InternalBVH b c h l' r) }"
| "rebalance_path (GoRight # p) (InternalBVH b c h l r) =
     do { r' \<leftarrow> rebalance_path p r; rebalance_node (InternalBVH b c h l r') }"
| "rebalance_path (d # p) (LeafBVH v b) = None"

text \<open>\<open>BalancedTreeBVH.insert\<close>, and the insertion of either class of tree.\<close>

definition balanced_insert :: "vertex \<Rightarrow> bvh option \<Rightarrow> bvh option" where
  "balanced_insert x rt =
     do {
       (t, po) \<leftarrow> tree_insert x rt;
       (case po of None \<Rightarrow> Some t | Some p \<Rightarrow> rebalance_path p t)
     }"

definition bvh_insert :: "bool \<Rightarrow> vertex \<Rightarrow> bvh option \<Rightarrow> bvh option" where
  "bvh_insert balanced x rt =
     (if balanced then balanced_insert x rt else map_option fst (tree_insert x rt))"

text \<open>
  \<open>built n balanced xs rt\<close>: the tree \<open>rt\<close> is the result of inserting the points \<open>xs\<close>
  (the last one first in the list), all of the dimension \<open>n\<close>, into the empty tree.
\<close>

inductive built :: "nat \<Rightarrow> bool \<Rightarrow> vertex list \<Rightarrow> bvh option \<Rightarrow> bool" where
  built_empty: "built n balanced [] None"
| built_insert:
    "built n balanced xs rt \<Longrightarrow> length (snd x) = n \<Longrightarrow> bvh_insert balanced x rt = Some t
     \<Longrightarrow> built n balanced (x # xs) (Some t)"

fun leaves :: "bvh \<Rightarrow> vertex set" where
  "leaves (LeafBVH v b) = {v}"
| "leaves (InternalBVH b c h l r) = leaves l \<union> leaves r"

text \<open>
  The invariant of the boxes: every box has the dimension of the points and ordered
  corners, the box of a leaf contains its point, and the box of an internal node covers the
  boxes of its two children.
\<close>

definition box_ok :: "nat \<Rightarrow> aabb \<Rightarrow> bool" where
  "box_ok n b =
     (length (pmin b) = n \<and> length (pmax b) = n \<and> (\<forall>i<n. pmin b ! i \<le> pmax b ! i))"

definition covers :: "nat \<Rightarrow> aabb \<Rightarrow> aabb \<Rightarrow> bool" where
  "covers n b c = (\<forall>i<n. pmin b ! i \<le> pmin c ! i \<and> pmax c ! i \<le> pmax b ! i)"

fun bvh_inv :: "nat \<Rightarrow> bvh \<Rightarrow> bool" where
  "bvh_inv n (LeafBVH v b) =
     (length (snd v) = n \<and> box_ok n b
      \<and> (\<forall>i<n. pmin b ! i \<le> Fin (snd v ! i) \<and> Fin (snd v ! i) \<le> pmax b ! i))"
| "bvh_inv n (InternalBVH b c h l r) =
     (box_ok n b \<and> covers n b (node_box l) \<and> covers n b (node_box r)
      \<and> bvh_inv n l \<and> bvh_inv n r)"

lemma update_point_nth:
  assumes "update_point b pt = Some b'" and "length (pmin b) = n" and "length (pmax b) = n"
    and "length pt = n"
  shows "length (pmin b') = n \<and> length (pmax b') = n
       \<and> (\<forall>i<n. pmin b' ! i = min (pmin b ! i) (pt ! i) \<and> pmax b' ! i = max (pmax b ! i) (pt ! i))"
proof -
  from assms(1) obtain mn mx where mn: "fold_point min (pmin b) pt = Some mn"
    and mx: "fold_point max (pmax b) pt = Some mx" and b': "b' = b\<lparr>pmin := mn, pmax := mx\<rparr>"
    by (auto simp: update_point_def split: bind_splits)
  from fold_point_Some[OF mn] fold_point_Some[OF mx] assms(2-4)
  show ?thesis by (simp add: b')
qed

lemma update_points_bounds:
  assumes "update_points b pts = Some b'" and "length (pmin b) = n" and "length (pmax b) = n"
    and "\<forall>pt\<in>set pts. length pt = n"
  shows "length (pmin b') = n \<and> length (pmax b') = n
       \<and> (\<forall>i<n. pmin b' ! i \<le> pmin b ! i \<and> pmax b ! i \<le> pmax b' ! i)
       \<and> (\<forall>pt\<in>set pts. \<forall>i<n. pmin b' ! i \<le> pt ! i \<and> pt ! i \<le> pmax b' ! i)
       \<and> (\<forall>lo hi. (\<forall>i<n. lo ! i \<le> pmin b ! i \<and> pmax b ! i \<le> hi ! i)
              \<and> (\<forall>pt\<in>set pts. \<forall>i<n. lo ! i \<le> pt ! i \<and> pt ! i \<le> hi ! i)
            \<longrightarrow> (\<forall>i<n. lo ! i \<le> pmin b' ! i \<and> pmax b' ! i \<le> hi ! i))"
  using assms
proof (induction pts arbitrary: b)
  case Nil
  then show ?case by simp
next
  case (Cons pt pts)
  from Cons.prems(1) obtain b1 where b1: "update_point b pt = Some b1"
    and rest: "update_points b1 pts = Some b'"
    by (auto split: bind_splits)
  from update_point_nth[OF b1 Cons.prems(2,3)] Cons.prems(4)
  have s: "length (pmin b1) = n" "length (pmax b1) = n"
    "\<forall>i<n. pmin b1 ! i = min (pmin b ! i) (pt ! i) \<and> pmax b1 ! i = max (pmax b ! i) (pt ! i)"
    by simp_all
  from Cons.prems(4) have all: "\<forall>pt\<in>set pts. length pt = n" by simp
  note IH = Cons.IH[OF rest s(1,2) all]
  show ?case
  proof (intro conjI allI impI ballI)
    show "length (pmin b') = n" "length (pmax b') = n" using IH by simp_all
  next
    fix i assume "i < n"
    with IH s(3) show "pmin b' ! i \<le> pmin b ! i" "pmax b ! i \<le> pmax b' ! i"
      by (auto simp: min_le_iff_disj le_max_iff_disj intro: order_trans)
  next
    fix q i assume q: "q \<in> set (pt # pts)" and i: "i < n"
    show "pmin b' ! i \<le> q ! i" "q ! i \<le> pmax b' ! i"
    proof -
      have "pmin b' ! i \<le> q ! i \<and> q ! i \<le> pmax b' ! i"
      proof (cases "q = pt")
        case True
        have "pmin b' ! i \<le> pmin b1 ! i" "pmax b1 ! i \<le> pmax b' ! i" using IH i by simp_all
        moreover have "pmin b1 ! i \<le> pt ! i" "pt ! i \<le> pmax b1 ! i" using s(3) i by simp_all
        ultimately show ?thesis using True by (auto intro: order_trans)
      next
        case False
        with q have "q \<in> set pts" by simp
        with IH i show ?thesis by blast
      qed
      then show "pmin b' ! i \<le> q ! i" "q ! i \<le> pmax b' ! i" by simp_all
    qed
  next
    fix lo hi i
    assume h: "(\<forall>i<n. lo ! i \<le> pmin b ! i \<and> pmax b ! i \<le> hi ! i)
              \<and> (\<forall>q\<in>set (pt # pts). \<forall>i<n. lo ! i \<le> q ! i \<and> q ! i \<le> hi ! i)"
      and i: "i < n"
    have b1b: "\<forall>i<n. lo ! i \<le> pmin b1 ! i \<and> pmax b1 ! i \<le> hi ! i"
      using h s(3) by simp
    from h have pts: "\<forall>q\<in>set pts. \<forall>i<n. lo ! i \<le> q ! i \<and> q ! i \<le> hi ! i" by simp
    from IH b1b pts i show "lo ! i \<le> pmin b' ! i" "pmax b' ! i \<le> hi ! i" by blast+
  qed
qed

lemma le_PInf [simp]: "x \<le> PInf"
  by (cases x) simp_all

lemma MInf_le [simp]: "MInf \<le> x"
  by simp

lemma aabb_set_result:
  assumes "aabb_set b pts = Some b'" and "length (pmin b) = n" and "length (pmax b) = n"
    and "\<forall>pt\<in>set pts. length pt = n"
  shows "length (pmin b') = n \<and> length (pmax b') = n
       \<and> (\<forall>pt\<in>set pts. \<forall>i<n. pmin b' ! i \<le> pt ! i \<and> pt ! i \<le> pmax b' ! i)
       \<and> (\<forall>lo hi. (\<forall>pt\<in>set pts. \<forall>i<n. lo ! i \<le> pt ! i \<and> pt ! i \<le> hi ! i)
            \<longrightarrow> (\<forall>i<n. lo ! i \<le> pmin b' ! i \<and> pmax b' ! i \<le> hi ! i))"
proof -
  let ?r = "b\<lparr>pmin := map (\<lambda>_. PInf) (pmin b), pmax := map (\<lambda>_. MInf) (pmax b)\<rparr>"
  from assms(1) obtain b1 where b1: "update_points ?r pts = Some b1"
    and sa: "update_surface_area b1 = Some b'"
    by (auto simp: aabb_set_def aabb_update_def split: bind_splits)
  have l: "length (pmin ?r) = n" "length (pmax ?r) = n" using assms(2,3) by simp_all
  note U = update_points_bounds[OF b1 l assms(4)]
  note C = update_surface_area_corners[OF sa]
  have r: "pmin ?r ! i = PInf" "pmax ?r ! i = MInf" if "i < n" for i
    using that assms(2,3) by simp_all
  show ?thesis
  proof (intro conjI allI impI ballI)
    show "length (pmin b') = n" "length (pmax b') = n" using U C by simp_all
  next
    fix pt i assume "pt \<in> set pts" "i < n"
    with U C show "pmin b' ! i \<le> pt ! i" "pt ! i \<le> pmax b' ! i" by simp_all
  next
    fix lo hi :: corner and i
    assume h: "\<forall>pt\<in>set pts. \<forall>i<n. lo ! i \<le> pt ! i \<and> pt ! i \<le> hi ! i" and i: "i < n"
    have "\<forall>i<n. lo ! i \<le> pmin ?r ! i \<and> pmax ?r ! i \<le> hi ! i" using r by simp
    with U h have "\<forall>i<n. lo ! i \<le> pmin b1 ! i \<and> pmax b1 ! i \<le> hi ! i" by blast
    with C i show "lo ! i \<le> pmin b' ! i" "pmax b' ! i \<le> hi ! i" by simp_all
  qed
qed

lemma covers_trans: "covers n a b \<Longrightarrow> covers n b c \<Longrightarrow> covers n a c"
  by (auto simp: covers_def intro: order_trans)

lemma covers_refl: "covers n a a"
  by (simp add: covers_def)

lemma set_box_ok:
  assumes "set_box b l r = Some b'" and "length (pmin b) = n" and "length (pmax b) = n"
    and "box_ok n (node_box l)" and "box_ok n (node_box r)"
  shows "box_ok n b' \<and> covers n b' (node_box l) \<and> covers n b' (node_box r)
       \<and> (\<forall>B. covers n B (node_box l) \<and> covers n B (node_box r) \<longrightarrow> covers n B b')"
proof -
  let ?pts = "[pmin (node_box l), pmax (node_box l), pmin (node_box r), pmax (node_box r)]"
  have len: "\<forall>pt\<in>set ?pts. length pt = n" using assms(4,5) by (simp add: box_ok_def)
  from assms(1) have s: "aabb_set b ?pts = Some b'" by (simp add: set_box_def)
  note R = aabb_set_result[OF s assms(2,3) len]
  have c1: "covers n b' (node_box l)" and c2: "covers n b' (node_box r)"
    using R by (simp_all add: covers_def)
  have ok: "box_ok n b'"
    unfolding box_ok_def
  proof (intro conjI allI impI)
    show "length (pmin b') = n" "length (pmax b') = n" using R by simp_all
    fix i assume i: "i < n"
    have "pmin b' ! i \<le> pmin (node_box l) ! i" using c1 i by (simp add: covers_def)
    also have "\<dots> \<le> pmax (node_box l) ! i" using assms(4) i by (simp add: box_ok_def)
    also have "\<dots> \<le> pmax b' ! i" using c1 i by (simp add: covers_def)
    finally show "pmin b' ! i \<le> pmax b' ! i" .
  qed
  have least: "covers n B b'" if B: "covers n B (node_box l) \<and> covers n B (node_box r)" for B
  proof -
    have pts: "\<forall>pt\<in>set ?pts. \<forall>i<n. pmin B ! i \<le> pt ! i \<and> pt ! i \<le> pmax B ! i"
    proof (intro ballI allI impI)
      fix pt i assume pt: "pt \<in> set ?pts" and i: "i < n"
      have a: "pmin B ! i \<le> pmin (node_box l) ! i" "pmax (node_box l) ! i \<le> pmax B ! i"
        "pmin B ! i \<le> pmin (node_box r) ! i" "pmax (node_box r) ! i \<le> pmax B ! i"
        using B i by (simp_all add: covers_def)
      have o: "pmin (node_box l) ! i \<le> pmax (node_box l) ! i"
        "pmin (node_box r) ! i \<le> pmax (node_box r) ! i"
        using assms(4,5) i by (simp_all add: box_ok_def)
      from pt a o show "pmin B ! i \<le> pt ! i \<and> pt ! i \<le> pmax B ! i"
        by (auto intro: order_trans)
    qed
    from R have "(\<forall>pt\<in>set ?pts. \<forall>i<n. pmin B ! i \<le> pt ! i \<and> pt ! i \<le> pmax B ! i)
        \<longrightarrow> (\<forall>i<n. pmin B ! i \<le> pmin b' ! i \<and> pmax b' ! i \<le> pmax B ! i)"
      by blast
    with pts show ?thesis unfolding covers_def by blast
  qed
  from ok c1 c2 least show ?thesis by blast
qed

lemma union_ok:
  assumes "union b c = Some b'" and "box_ok n b" and "box_ok n c"
  shows "box_ok n b' \<and> covers n b' b \<and> covers n b' c"
proof -
  from assms(1) obtain b1 where b1: "update_points b [pmin c, pmax c] = Some b1"
    and sa: "update_surface_area b1 = Some b'"
    by (auto simp: union_def aabb_update_def split: bind_splits)
  have l: "length (pmin b) = n" "length (pmax b) = n" using assms(2) by (simp_all add: box_ok_def)
  have len: "\<forall>pt\<in>set [pmin c, pmax c]. length pt = n" using assms(3) by (simp add: box_ok_def)
  note U = update_points_bounds[OF b1 l len]
  note C = update_surface_area_corners[OF sa]
  have c1: "covers n b' b" using U C by (simp add: covers_def)
  have c2: "covers n b' c" using U C by (simp add: covers_def)
  have "box_ok n b'"
    unfolding box_ok_def
  proof (intro conjI allI impI)
    show "length (pmin b') = n" "length (pmax b') = n" using U C by simp_all
    fix i assume i: "i < n"
    have "pmin b' ! i \<le> pmin b ! i" using c1 i by (simp add: covers_def)
    also have "\<dots> \<le> pmax b ! i" using assms(2) i by (simp add: box_ok_def)
    also have "\<dots> \<le> pmax b' ! i" using c1 i by (simp add: covers_def)
    finally show "pmin b' ! i \<le> pmax b' ! i" .
  qed
  with c1 c2 show ?thesis by blast
qed

lemma bvh_inv_box_ok: "bvh_inv n t \<Longrightarrow> box_ok n (node_box t)"
  by (cases t) simp_all

lemma new_leaf_inv:
  assumes "new_leaf v = Some t" and "length (snd v) = n"
  shows "bvh_inv n t \<and> leaves t = {v}"
proof -
  from assms(1) obtain b where b: "aabb_init [map Fin (snd v)] None = Some b"
    and t: "t = LeafBVH v b"
    by (auto simp: new_leaf_def)
  from b have s: "aabb_set (aabb_fresh n) [map Fin (snd v)] = Some b"
    by (auto simp: aabb_init_def aabb_init_body_def dimension_def assms(2) split: if_splits)
  have "length (pmin (aabb_fresh n)) = n" "length (pmax (aabb_fresh n)) = n"
    by (simp_all add: aabb_fresh_def)
  from aabb_set_result[OF s this] assms(2)
  have R: "length (pmin b) = n" "length (pmax b) = n"
    "\<forall>i<n. pmin b ! i \<le> Fin (snd v ! i) \<and> Fin (snd v ! i) \<le> pmax b ! i"
    by simp_all
  have "box_ok n b" unfolding box_ok_def using R by (auto intro: order_trans)
  with R assms(2) show ?thesis by (simp add: t)
qed

lemma refresh_inv:
  assumes "refresh b x y = Some t" and "length (pmin b) = n" and "length (pmax b) = n"
    and "bvh_inv n x" and "bvh_inv n y"
  shows "bvh_inv n t \<and> leaves t = leaves x \<union> leaves y
       \<and> (\<forall>B. covers n B (node_box x) \<and> covers n B (node_box y) \<longrightarrow> covers n B (node_box t))"
proof -
  from assms(1) obtain b' h where b': "set_box b x y = Some b'"
    and t: "t = InternalBVH b' (1 + node_count x + node_count y) h x y"
    by (auto simp: refresh_def split: bind_splits)
  from set_box_ok[OF b' assms(2,3) bvh_inv_box_ok[OF assms(4)] bvh_inv_box_ok[OF assms(5)]]
  show ?thesis using assms(4,5) by (simp add: t)
qed

lemma new_internal_inv:
  assumes "new_internal n l r = Some t" and "bvh_inv n l" and "bvh_inv n r"
  shows "bvh_inv n t \<and> leaves t = leaves l \<union> leaves r"
proof -
  from assms(1) obtain b where b: "aabb_init [] (Some n) = Some b"
    and r: "refresh b l r = Some t"
    by (auto simp: new_internal_def refresh_def split: bind_splits)
  from b have "length (pmin b) = n" "length (pmax b) = n"
    by (auto simp: aabb_init_def aabb_init_body_def aabb_fresh_def split: if_splits)
  from refresh_inv[OF r this assms(2,3)] show ?thesis by simp
qed

lemma insert_update_inv:
  "insert_at p v t = Some t' \<Longrightarrow> update_internals p t' = Some t'' \<Longrightarrow> bvh_inv n t \<Longrightarrow>
   length (snd v) = n \<Longrightarrow> bvh_inv n t'' \<and> leaves t'' = insert v (leaves t)"
proof (induction p v t arbitrary: t' t'' rule: insert_at.induct)
  case (1 v sibling)
  from "1.prems"(1) obtain newnode where nl: "new_leaf v = Some newnode"
    and ni: "new_internal n sibling newnode = Some t'"
    by (auto simp: dimension_def "1.prems"(4) split: bind_splits)
  from new_leaf_inv[OF nl "1.prems"(4)] new_internal_inv[OF ni "1.prems"(3)] "1.prems"(2)
  show ?case by auto
next
  case (2 p v b c h l r)
  from "2.prems"(1) obtain l' where l': "insert_at p v l = Some l'"
    and t': "t' = InternalBVH b c h l' r"
    by (auto split: bind_splits)
  from "2.prems"(2) obtain l'' b' h' where l'': "update_internals p l' = Some l''"
    and b': "union b (node_box l'') = Some b'"
    and t'': "t'' = InternalBVH b' (1 + node_count l'' + node_count r) h' l'' r"
    by (auto simp: t' split: bind_splits)
  from "2.prems"(3) have inv: "box_ok n b" "covers n b (node_box r)" "bvh_inv n l" "bvh_inv n r"
    by simp_all
  from "2.IH"[OF l' l'' inv(3) "2.prems"(4)]
  have IH: "bvh_inv n l''" "leaves l'' = insert v (leaves l)" by simp_all
  from union_ok[OF b' inv(1) bvh_inv_box_ok[OF IH(1)]]
  have u: "box_ok n b'" "covers n b' b" "covers n b' (node_box l'')" by simp_all
  from covers_trans[OF u(2) inv(2)] u IH inv(4) show ?case by (simp add: t'')
next
  case (3 p v b c h l r)
  from "3.prems"(1) obtain r' where r': "insert_at p v r = Some r'"
    and t': "t' = InternalBVH b c h l r'"
    by (auto split: bind_splits)
  from "3.prems"(2) obtain r'' b' h' where r'': "update_internals p r' = Some r''"
    and b': "union b (node_box r'') = Some b'"
    and t'': "t'' = InternalBVH b' (1 + node_count l + node_count r'') h' l r''"
    by (auto simp: t' split: bind_splits)
  from "3.prems"(3) have inv: "box_ok n b" "covers n b (node_box l)" "bvh_inv n l" "bvh_inv n r"
    by simp_all
  from "3.IH"[OF r' r'' inv(4) "3.prems"(4)]
  have IH: "bvh_inv n r''" "leaves r'' = insert v (leaves r)" by simp_all
  from union_ok[OF b' inv(1) bvh_inv_box_ok[OF IH(1)]]
  have u: "box_ok n b'" "covers n b' b" "covers n b' (node_box r'')" by simp_all
  from covers_trans[OF u(2) inv(2)] u IH inv(3) show ?case by (simp add: t'')
next
  case (4 d p v v' b')
  then show ?case by simp
qed

lemma tree_insert_inv:
  assumes "tree_insert x rt = Some (t, po)" and "length (snd x) = n"
    and "case rt of None \<Rightarrow> True | Some t0 \<Rightarrow> bvh_inv n t0"
  shows "bvh_inv n t \<and> leaves t = insert x (case rt of None \<Rightarrow> {} | Some t0 \<Rightarrow> leaves t0)"
proof (cases rt)
  case None
  with assms(1) have "new_leaf x = Some t" by (auto simp: tree_insert_def)
  from new_leaf_inv[OF this assms(2)] None show ?thesis by simp
next
  case (Some t0)
  with assms(1) obtain p t' where "insert_at p x t0 = Some t'" "update_internals p t' = Some t"
    by (auto simp: tree_insert_def split: bind_splits)
  from insert_update_inv[OF this] assms(2,3) Some show ?thesis by simp
qed

text \<open>What a swap of two subtrees under a node preserves.\<close>

definition pair_step :: "nat \<Rightarrow> bvh \<Rightarrow> bvh \<Rightarrow> bvh \<Rightarrow> bvh \<Rightarrow> bool" where
  "pair_step n l r l' r' =
     (bvh_inv n l' \<and> bvh_inv n r' \<and> leaves l' \<union> leaves r' = leaves l \<union> leaves r
      \<and> (\<forall>B. covers n B (node_box l) \<and> covers n B (node_box r)
             \<longrightarrow> covers n B (node_box l') \<and> covers n B (node_box r')))"

lemma pair_step_trans:
  "pair_step n l r l1 r1 \<Longrightarrow> pair_step n l1 r1 l2 r2 \<Longrightarrow> pair_step n l r l2 r2"
  unfolding pair_step_def by blast

lemma inv_children:
  assumes "bvh_inv n (InternalBVH b c h x y)"
  shows "bvh_inv n x" "bvh_inv n y" "length (pmin b) = n" "length (pmax b) = n"
    "covers n B (node_box (InternalBVH b c h x y)) \<Longrightarrow> covers n B (node_box x)"
    "covers n B (node_box (InternalBVH b c h x y)) \<Longrightarrow> covers n B (node_box y)"
  using assms by (auto simp: box_ok_def intro: covers_trans)

lemma try_left_step:
  assumes "try_left c l r = Some (c1, c2, l1)" and "bvh_inv n l" and "bvh_inv n r"
  shows "pair_step n l r l1 r"
proof (cases l)
  case (LeafBVH v b)
  with assms show ?thesis by (auto simp: pair_step_def)
next
  case (InternalBVH lb lc lh ll lr)
  note ch = inv_children[OF assms(2)[unfolded InternalBVH]]
  from assms(1) obtain t1 t2 where t1: "refresh lb r lr = Some t1"
    and t2: "refresh (node_box t1) ll r = Some t2"
    and t3: "refresh (node_box t2) ll lr = Some l1"
    by (auto simp: InternalBVH split: bind_splits)
  from refresh_inv[OF t1 ch(3,4) assms(3) ch(2)] have "box_ok n (node_box t1)"
    by (simp add: bvh_inv_box_ok)
  then have l1: "length (pmin (node_box t1)) = n" "length (pmax (node_box t1)) = n"
    by (simp_all add: box_ok_def)
  from refresh_inv[OF t2 l1 ch(1) assms(3)] have "box_ok n (node_box t2)"
    by (simp add: bvh_inv_box_ok)
  then have l2: "length (pmin (node_box t2)) = n" "length (pmax (node_box t2)) = n"
    by (simp_all add: box_ok_def)
  from refresh_inv[OF t3 l2 ch(1,2)] ch(5,6) assms(3)
  show ?thesis unfolding pair_step_def InternalBVH by auto
qed

lemma try_right_step:
  assumes "try_right c l r = Some (c1, c2, r1)" and "bvh_inv n l" and "bvh_inv n r"
  shows "pair_step n l r l r1"
proof (cases r)
  case (LeafBVH v b)
  with assms show ?thesis by (auto simp: pair_step_def)
next
  case (InternalBVH rb rc rh rl rr)
  note ch = inv_children[OF assms(3)[unfolded InternalBVH]]
  from assms(1) obtain t1 t2 where t1: "refresh rb l rr = Some t1"
    and t2: "refresh (node_box t1) rl l = Some t2"
    and t3: "refresh (node_box t2) rl rr = Some r1"
    by (auto simp: InternalBVH split: bind_splits)
  from refresh_inv[OF t1 ch(3,4) assms(2) ch(2)] have "box_ok n (node_box t1)"
    by (simp add: bvh_inv_box_ok)
  then have l1: "length (pmin (node_box t1)) = n" "length (pmax (node_box t1)) = n"
    by (simp_all add: box_ok_def)
  from refresh_inv[OF t2 l1 ch(1) assms(2)] have "box_ok n (node_box t2)"
    by (simp add: bvh_inv_box_ok)
  then have l2: "length (pmin (node_box t2)) = n" "length (pmax (node_box t2)) = n"
    by (simp_all add: box_ok_def)
  from refresh_inv[OF t3 l2 ch(1,2)] ch(5,6) assms(2)
  show ?thesis unfolding pair_step_def InternalBVH by auto
qed

lemma swap_ll_r_step:
  assumes "swap_ll_r l r = Some (l', r')" and "bvh_inv n l" and "bvh_inv n r"
  shows "pair_step n l r l' r'"
proof (cases l)
  case (LeafBVH v b)
  with assms show ?thesis by simp
next
  case (InternalBVH lb lc lh ll lr)
  note ch = inv_children[OF assms(2)[unfolded InternalBVH]]
  from assms(1) have t: "refresh lb r lr = Some l'" and r': "r' = ll"
    by (auto simp: InternalBVH split: bind_splits)
  from refresh_inv[OF t ch(3,4) assms(3) ch(2)] ch(1,5,6)
  show ?thesis unfolding pair_step_def InternalBVH r' by auto
qed

lemma swap_lr_r_step:
  assumes "swap_lr_r l r = Some (l', r')" and "bvh_inv n l" and "bvh_inv n r"
  shows "pair_step n l r l' r'"
proof (cases l)
  case (LeafBVH v b)
  with assms show ?thesis by simp
next
  case (InternalBVH lb lc lh ll lr)
  note ch = inv_children[OF assms(2)[unfolded InternalBVH]]
  from assms(1) have t: "refresh lb ll r = Some l'" and r': "r' = lr"
    by (auto simp: InternalBVH split: bind_splits)
  from refresh_inv[OF t ch(3,4) ch(1) assms(3)] ch(2,5,6)
  show ?thesis unfolding pair_step_def InternalBVH r' by auto
qed

lemma swap_rl_l_step:
  assumes "swap_rl_l l r = Some (l', r')" and "bvh_inv n l" and "bvh_inv n r"
  shows "pair_step n l r l' r'"
proof (cases r)
  case (LeafBVH v b)
  with assms show ?thesis by simp
next
  case (InternalBVH rb rc rh rl rr)
  note ch = inv_children[OF assms(3)[unfolded InternalBVH]]
  from assms(1) have t: "refresh rb l rr = Some r'" and l': "l' = rl"
    by (auto simp: InternalBVH split: bind_splits)
  from refresh_inv[OF t ch(3,4) assms(2) ch(2)] ch(1,5,6)
  show ?thesis unfolding pair_step_def InternalBVH l' by auto
qed

lemma swap_rr_l_step:
  assumes "swap_rr_l l r = Some (l', r')" and "bvh_inv n l" and "bvh_inv n r"
  shows "pair_step n l r l' r'"
proof (cases r)
  case (LeafBVH v b)
  with assms show ?thesis by simp
next
  case (InternalBVH rb rc rh rl rr)
  note ch = inv_children[OF assms(3)[unfolded InternalBVH]]
  from assms(1) have t: "refresh rb rl l = Some r'" and l': "l' = rr"
    by (auto simp: InternalBVH split: bind_splits)
  from refresh_inv[OF t ch(3,4) ch(1) assms(2)] ch(2,5,6)
  show ?thesis unfolding pair_step_def InternalBVH l' by auto
qed

lemma pair_step_refl: "bvh_inv n l \<Longrightarrow> bvh_inv n r \<Longrightarrow> pair_step n l r l r"
  by (simp add: pair_step_def)

lemma rebalance_node_inv:
  assumes "rebalance_node t = Some t'" and "bvh_inv n t"
  shows "bvh_inv n t' \<and> leaves t' = leaves t \<and> node_box t' = node_box t"
proof (cases t)
  case (LeafBVH v b)
  with assms show ?thesis by simp
next
  case (InternalBVH b c h l r)
  from assms(2) have inv: "box_ok n b" "covers n b (node_box l)" "covers n b (node_box r)"
    "bvh_inv n l" "bvh_inv n r" by (simp_all add: InternalBVH)
  from assms(1) obtain c1 c2 l1 c3 c4 r1 l' r' h' sel where
    tl: "try_left c l r = Some (c1, c2, l1)" and tr: "try_right c l1 r = Some (c3, c4, r1)"
    and sw: "sel = Some (l', r')"
      "sel = Some (l1, r1) \<or> sel = swap_ll_r l1 r1 \<or> sel = swap_lr_r l1 r1
        \<or> sel = swap_rl_l l1 r1 \<or> sel = swap_rr_l l1 r1"
    and t': "t' = InternalBVH b c h' l' r'"
    by (auto simp: InternalBVH Let_def split: bind_splits if_splits)
  note s1 = try_left_step[OF tl inv(4,5)]
  then have l1: "bvh_inv n l1" by (simp add: pair_step_def)
  note s2 = try_right_step[OF tr l1 inv(5)]
  then have r1: "bvh_inv n r1" by (simp add: pair_step_def)
  have s3: "pair_step n l1 r1 l' r'"
    using sw swap_ll_r_step[OF _ l1 r1] swap_lr_r_step[OF _ l1 r1] swap_rl_l_step[OF _ l1 r1]
      swap_rr_l_step[OF _ l1 r1] pair_step_refl[OF l1 r1]
    by (metis option.inject prod.inject)
  from pair_step_trans[OF pair_step_trans[OF s1 s2] s3] inv(1-3)
  show ?thesis unfolding pair_step_def t' InternalBVH by auto
qed

lemma rebalance_path_inv:
  "rebalance_path p t = Some t' \<Longrightarrow> bvh_inv n t \<Longrightarrow>
   bvh_inv n t' \<and> leaves t' = leaves t \<and> node_box t' = node_box t"
proof (induction p t arbitrary: t' rule: rebalance_path.induct)
  case (1 t)
  then show ?case using rebalance_node_inv by simp
next
  case (2 p b c h l r)
  from "2.prems"(1) obtain l' where l': "rebalance_path p l = Some l'"
    and rn: "rebalance_node (InternalBVH b c h l' r) = Some t'"
    by (auto split: bind_splits)
  from "2.IH"[OF l'] "2.prems"(2) have "bvh_inv n (InternalBVH b c h l' r)"
    "leaves l' = leaves l" by simp_all
  with rebalance_node_inv[OF rn] show ?case by simp
next
  case (3 p b c h l r)
  from "3.prems"(1) obtain r' where r': "rebalance_path p r = Some r'"
    and rn: "rebalance_node (InternalBVH b c h l r') = Some t'"
    by (auto split: bind_splits)
  from "3.IH"[OF r'] "3.prems"(2) have "bvh_inv n (InternalBVH b c h l r')"
    "leaves r' = leaves r" by simp_all
  with rebalance_node_inv[OF rn] show ?case by simp
next
  case (4 d p v b)
  then show ?case by simp
qed

lemma bvh_insert_inv:
  assumes "bvh_insert balanced x rt = Some t" and "length (snd x) = n"
    and "case rt of None \<Rightarrow> True | Some t0 \<Rightarrow> bvh_inv n t0"
  shows "bvh_inv n t \<and> leaves t = insert x (case rt of None \<Rightarrow> {} | Some t0 \<Rightarrow> leaves t0)"
proof (cases balanced)
  case False
  with assms(1) obtain po where "tree_insert x rt = Some (t, po)"
    by (auto simp: bvh_insert_def)
  from tree_insert_inv[OF this assms(2,3)] show ?thesis .
next
  case True
  with assms(1) obtain t1 po where ti: "tree_insert x rt = Some (t1, po)"
    and rb: "(case po of None \<Rightarrow> Some t1 | Some p \<Rightarrow> rebalance_path p t1) = Some t"
    by (auto simp: bvh_insert_def balanced_insert_def split: bind_splits)
  note I = tree_insert_inv[OF ti assms(2,3)]
  show ?thesis
  proof (cases po)
    case None
    with rb I show ?thesis by simp
  next
    case (Some p)
    with rb have "rebalance_path p t1 = Some t" by simp
    from rebalance_path_inv[OF this I[THEN conjunct1]] I show ?thesis by simp
  qed
qed

lemma built_inv:
  "built n balanced xs rt \<Longrightarrow>
   (case rt of None \<Rightarrow> xs = [] | Some t \<Rightarrow> bvh_inv n t \<and> leaves t = set xs)"
proof (induction rule: built.induct)
  case (built_empty n balanced)
  show ?case by simp
next
  case (built_insert n balanced xs rt x t)
  have pre: "case rt of None \<Rightarrow> True | Some t0 \<Rightarrow> bvh_inv n t0"
    using built_insert.IH by (auto split: option.splits)
  show ?case using built_insert.IH bvh_insert_inv[OF built_insert.hyps(3) built_insert.hyps(2) pre]
    by (auto split: option.splits)
qed

lemma leaf_in_box:
  "bvh_inv n t \<Longrightarrow> v \<in> leaves t \<Longrightarrow>
   length (snd v) = n
   \<and> (\<forall>i<n. pmin (node_box t) ! i \<le> Fin (snd v ! i) \<and> Fin (snd v ! i) \<le> pmax (node_box t) ! i)"
proof (induction t)
  case (LeafBVH v' b)
  then show ?case by simp
next
  case (InternalBVH b c h l r)
  from InternalBVH.prems(1) have inv: "covers n b (node_box l)" "covers n b (node_box r)"
    "bvh_inv n l" "bvh_inv n r" by simp_all
  from InternalBVH.prems(2) consider "v \<in> leaves l" | "v \<in> leaves r" by auto
  then show ?case
  proof cases
    case 1
    from InternalBVH.IH(1)[OF inv(3) 1] inv(1) show ?thesis
      by (auto simp: covers_def intro: order_trans)
  next
    case 2
    from InternalBVH.IH(2)[OF inv(4) 2] inv(2) show ?thesis
      by (auto simp: covers_def intro: order_trans)
  qed
qed

lemma abs_nth_le_norm2: "i < length v \<Longrightarrow> \<bar>v ! i\<bar> \<le> norm2 v"
proof -
  assume i: "i < length v"
  have nonneg: "0 \<le> (\<Sum>a\<leftarrow>w. a * a)" for w :: "real list"
    by (induction w) simp_all
  have "(v ! i) * (v ! i) \<le> (\<Sum>a\<leftarrow>v. a * a)" using i
  proof (induction v arbitrary: i)
    case Nil
    then show ?case by simp
  next
    case (Cons a v)
    show ?case
    proof (cases i)
      case 0
      then show ?thesis using nonneg[of v] by simp
    next
      case (Suc j)
      with Cons.prems have "j < length v" by simp
      from Cons.IH[OF this] Suc show ?thesis
        using zero_le_square[of a] by (simp add: add_increasing)
    qed
  qed
  then have "sqrt ((v ! i) * (v ! i)) \<le> sqrt (\<Sum>a\<leftarrow>v. a * a)" by (rule real_sqrt_le_mono)
  then show ?thesis by (simp add: norm2_def)
qed

lemma coord_le_distance:
  assumes "distance p q = Some d" and "length p = length q" and "i < length p"
  shows "\<bar>p ! i - q ! i\<bar> \<le> d"
proof -
  from assms(1,2) have d: "d = norm2 (map2 (-) p q)"
    by (auto simp: distance_def array_sub_def)
  have "\<bar>map2 (-) p q ! i\<bar> \<le> norm2 (map2 (-) p q)"
    by (rule abs_nth_le_norm2) (use assms(2,3) in simp)
  then show ?thesis using assms(2,3) by (simp add: d)
qed

lemma query_box_bounds:
  assumes "query_box p r = Some qb" and "0 \<le> r" and "length p = n"
  shows "length (pmin qb) = n \<and> length (pmax qb) = n
       \<and> (\<forall>i<n. pmin qb ! i \<le> Fin (p ! i - r) \<and> Fin (p ! i + r) \<le> pmax qb ! i)"
proof (cases "r = 0")
  case True
  with assms(1) have "aabb_init [map Fin p] None = Some qb" by (simp add: query_box_def)
  then have s: "aabb_set (aabb_fresh n) [map Fin p] = Some qb"
    by (auto simp: aabb_init_def aabb_init_body_def dimension_def assms(3) split: if_splits)
  have "length (pmin (aabb_fresh n)) = n" "length (pmax (aabb_fresh n)) = n"
    by (simp_all add: aabb_fresh_def)
  from aabb_set_result[OF s this] assms(3) True show ?thesis by simp
next
  case False
  let ?lo = "map Fin (map (\<lambda>a. a - r) p)"
  let ?hi = "map Fin (map (\<lambda>a. a + r) p)"
  from False assms(1) have "aabb_init [?lo, ?hi] None = Some qb" by (simp add: query_box_def)
  then have s: "aabb_set (aabb_fresh n) [?lo, ?hi] = Some qb"
    by (auto simp: aabb_init_def aabb_init_body_def dimension_def assms(3) split: if_splits)
  have "length (pmin (aabb_fresh n)) = n" "length (pmax (aabb_fresh n)) = n"
    by (simp_all add: aabb_fresh_def)
  from aabb_set_result[OF s this] assms(3) show ?thesis by simp
qed

lemma Fin_le [simp]: "Fin a \<le> Fin b \<longleftrightarrow> a \<le> b"
  by simp

lemma pruning_keeps_leaf:
  assumes qb: "length (pmin qb) = n" "length (pmax qb) = n"
      "\<forall>i<n. pmin qb ! i \<le> Fin (p ! i - r) \<and> Fin (p ! i + r) \<le> pmax qb ! i"
    and inv: "bvh_inv n t" and v: "v \<in> leaves t" and p: "length p = n"
    and d: "distance p (snd v) = Some d" "d \<le> r"
  shows "intersect qb (node_box t)"
proof -
  note lb = leaf_in_box[OF inv v]
  from bvh_inv_box_ok[OF inv] have ok: "length (pmin (node_box t)) = n"
    "length (pmax (node_box t)) = n" by (simp_all add: box_ok_def)
  have c: "p ! i - r \<le> snd v ! i \<and> snd v ! i \<le> p ! i + r" if "i < n" for i
  proof -
    have "\<bar>p ! i - snd v ! i\<bar> \<le> d"
      by (rule coord_le_distance[OF d(1)]) (use lb p that in simp_all)
    with d(2) show ?thesis by linarith
  qed
  have 1: "pmin qb ! i \<le> pmax (node_box t) ! i" if "i < n" for i
  proof -
    have "pmin qb ! i \<le> Fin (p ! i - r)" using qb(3) that by simp
    also have "\<dots> \<le> Fin (snd v ! i)" using c[OF that] by simp
    also have "\<dots> \<le> pmax (node_box t) ! i" using lb that by simp
    finally show ?thesis .
  qed
  have 2: "pmin (node_box t) ! i \<le> pmax qb ! i" if "i < n" for i
  proof -
    have "pmin (node_box t) ! i \<le> Fin (snd v ! i)" using lb that by simp
    also have "\<dots> \<le> Fin (p ! i + r)" using c[OF that] by simp
    also have "\<dots> \<le> pmax qb ! i" using qb(3) that by simp
    finally show ?thesis .
  qed
  show ?thesis
    unfolding intersect_def
    using 1 2 by (simp add: point_le_nth qb(1,2) ok)
qed

lemma query_loop_sound:
  "query_loop qb p r stack = Some (Some v) \<Longrightarrow>
   (\<exists>t\<in>set stack. v \<in> leaves t) \<and> (\<exists>d. distance p (snd v) = Some d \<and> d \<le> r)"
proof (induction qb p r stack rule: query_loop.induct)
  case (1 qb pt rad)
  then show ?case by simp
next
  case (2 qb pt rad v' b stack)
  then show ?case by (auto split: option.splits if_splits)
next
  case (3 qb pt rad b c h l r stack)
  then show ?case by (auto split: if_splits)
qed

lemma query_loop_complete:
  "query_loop qb p r stack = Some None \<Longrightarrow> \<forall>t\<in>set stack. bvh_inv n t \<Longrightarrow>
   length (pmin qb) = n \<Longrightarrow> length (pmax qb) = n \<Longrightarrow>
   \<forall>i<n. pmin qb ! i \<le> Fin (p ! i - r) \<and> Fin (p ! i + r) \<le> pmax qb ! i \<Longrightarrow>
   length p = n \<Longrightarrow>
   \<forall>t\<in>set stack. \<forall>v\<in>leaves t. \<forall>d. distance p (snd v) = Some d \<longrightarrow> \<not> d \<le> r"
proof (induction qb p r stack rule: query_loop.induct)
  case (1 qb pt rad)
  then show ?case by simp
next
  case (2 qb pt rad v' b stack)
  then show ?case by (auto split: option.splits if_splits)
next
  case (3 qb pt rad b c h l r stack)
  show ?case
  proof (cases "intersect qb b")
    case True
    with "3.prems" "3.IH"(1) show ?thesis by auto
  next
    case False
    with "3.prems" "3.IH"(2) have rest:
      "\<forall>t\<in>set stack. \<forall>v\<in>leaves t. \<forall>d. distance pt (snd v) = Some d \<longrightarrow> \<not> d \<le> rad" by auto
    have here: "\<not> d \<le> rad"
      if "v \<in> leaves (InternalBVH b c h l r)" "distance pt (snd v) = Some d" for v d
    proof
      assume "d \<le> rad"
      from pruning_keeps_leaf[OF "3.prems"(3,4,5) _ that(1) "3.prems"(6) that(2) this]
        "3.prems"(2) False
      show False by simp
    qed
    from rest here show ?thesis by auto
  qed
qed

theorem query_radius_correct:
  assumes "built n balanced xs rt" and "length p = n" and "0 \<le> r"
  shows "(\<forall>v. query rt p r = Some (Some v) \<longrightarrow>
            v \<in> set xs \<and> (\<exists>d. distance p (snd v) = Some d \<and> d \<le> r))
       \<and> (query rt p r = Some None \<longrightarrow>
            (\<forall>v\<in>set xs. \<forall>d. distance p (snd v) = Some d \<longrightarrow> \<not> d \<le> r))"
proof (cases rt)
  case None
  with built_inv[OF assms(1)] show ?thesis by (simp add: query_def)
next
  case (Some t)
  with built_inv[OF assms(1)] have inv: "bvh_inv n t" and lv: "leaves t = set xs" by simp_all
  show ?thesis
  proof (cases "query_box p r")
    case None
    then show ?thesis by (simp add: query_def Some)
  next
    case qb: (Some qb)
    have q: "query rt p r = query_loop qb p r [t]" by (simp add: query_def Some qb)
    note B = query_box_bounds[OF qb assms(3,2)]
    have s: "v \<in> set xs \<and> (\<exists>d. distance p (snd v) = Some d \<and> d \<le> r)"
      if "query rt p r = Some (Some v)" for v
      using query_loop_sound[of qb p r "[t]" v] that lv by (simp add: q)
    have c: "\<forall>v\<in>set xs. \<forall>d. distance p (snd v) = Some d \<longrightarrow> \<not> d \<le> r"
      if "query rt p r = Some None"
      using query_loop_complete[of qb p r "[t]" n] that inv B assms(2) lv by (simp add: q)
    from s c show ?thesis by blast
  qed
qed

end
